theory Spec2Isabelle
  imports Main "HOL-Library.Word" "HOL-Library.Sublist"
begin

section \<open>Individuals\<close>

text \<open>
  The engine is \<^verbatim>\<open>InfectiousDiseaseModeling.cpp\<close>, with the constants of \<^verbatim>\<open>Settings.h\<close>. The
  class \<^verbatim>\<open>Individual\<close> and the functions of \<^verbatim>\<open>GraphHandler\<close> that the engine calls are
  declared in \<^verbatim>\<open>Individual.h\<close> and \<^verbatim>\<open>GraphHandler.h\<close>; they are modelled from sections 3, 4.1
  and 4.2 of the specification, and each such definition says so. The sections
  \<open>simulate_parallel\<close>, \<open>simulate_serial\<close> and \<open>reset_input\<close> translate
  \<^verbatim>\<open>InfectiousDiseaseModeling.cpp\<close>.
\<close>

datatype InfectionState = Susceptible | Infected | Recovered

text \<open>
  Modelled from the spec: the class \<^verbatim>\<open>Individual\<close> of \<^verbatim>\<open>Individual.h\<close>. Section 3 gives the
  fields: a location, an infection state, a duration counter and the cumulative flag.
\<close>

record Individual =
  location :: int
  infectionState :: InfectionState
  infectedDuration :: nat
  everHit :: bool

text \<open>
  The two constants of the disease that the engine's headers would define are parameters:
  the duration threshold, and the test that decides from one random draw whether an
  infection attempt succeeds (the comparison of the draw with the infection probability).
  An infection probability of 1.0 is \<open>infects cfg r\<close> for every \<open>r\<close>.
\<close>

record Config =
  diseaseDurationThreshold :: nat
  infects :: "nat \<Rightarrow> bool"

text \<open>
  The random generator is a sequence of draws, fixed by the seed, and the number of draws
  already taken.
\<close>

datatype rng = Rng (draws: "nat \<Rightarrow> nat") (taken: nat)

definition next_draw :: "rng \<Rightarrow> nat \<times> rng" where
  "next_draw g = (draws g (taken g), Rng (draws g) (Suc (taken g)))"

text \<open>Modelled from the spec: the accessors of \<^verbatim>\<open>Individual\<close>.\<close>

definition get_location :: "Individual \<Rightarrow> int" where
  "get_location p = location p"

definition is_infected :: "Individual \<Rightarrow> bool" where
  "is_infected p = (infectionState p = Infected)"

definition is_hit :: "Individual \<Rightarrow> bool" where
  "is_hit p = everHit p"

text \<open>
  Modelled from the spec: \<^verbatim>\<open>Individual::infect\<close>, the forced infection of a seed case. It is
  the transition that section 4.2 describes for a successful \<open>tryInfect\<close>.
\<close>

definition infect :: "Individual \<Rightarrow> Individual" where
  "infect p = p\<lparr>infectionState := Infected, infectedDuration := 0, everHit := True\<rparr>"

text \<open>
  Modelled from the spec: \<^verbatim>\<open>Individual::try_infect\<close>. A no-op unless the individual is
  Susceptible; otherwise one draw decides whether the individual becomes Infected.
\<close>

definition try_infect :: "Config \<Rightarrow> Individual \<Rightarrow> rng \<Rightarrow> Individual \<times> rng" where
  "try_infect cfg p g =
     (if infectionState p = Susceptible then
        (let (r, g') = next_draw g
         in if infects cfg r then (infect p, g') else (p, g'))
      else (p, g))"

text \<open>
  Modelled from the spec: \<^verbatim>\<open>Individual::move\<close>. The location is replaced by one candidate,
  chosen by one draw. The spec defines the draw for a candidate set that holds at least
  the current location; with no candidate the model leaves the individual in place.
\<close>

definition move :: "int list \<Rightarrow> Individual \<Rightarrow> rng \<Rightarrow> Individual \<times> rng" where
  "move candidates p g =
     (if candidates = [] then (p, g)
      else (let (r, g') = next_draw g
            in (p\<lparr>location := candidates ! (r mod length candidates)\<rparr>, g')))"

text \<open>
  Modelled from the spec: \<^verbatim>\<open>Individual::advance_epoch\<close>. A no-op unless the individual is
  Infected; the counter is incremented, and beyond the threshold the individual recovers.
\<close>

definition advance_epoch :: "Config \<Rightarrow> Individual \<Rightarrow> Individual" where
  "advance_epoch cfg p =
     (if infectionState p = Infected then
        (let d = Suc (infectedDuration p)
         in if diseaseDurationThreshold cfg < d
            then p\<lparr>infectionState := Recovered, infectedDuration := d\<rparr>
            else p\<lparr>infectedDuration := d\<rparr>)
      else p)"

section \<open>The neighbourhood index\<close>

text \<open>
  \<^verbatim>\<open>LocationUndirectedGraph\<close> is a Boost adjacency list with vector storage: its vertices
  are \<open>0, ..., vertex_count - 1\<close>, and its edges are pairs of vertices.
\<close>

record LocationUndirectedGraph =
  vertex_count :: nat
  m_edges :: "(int \<times> int) list"

datatype error = InvalidGraph | InvalidConfiguration | IndexOutOfRange

definition adjacent :: "LocationUndirectedGraph \<Rightarrow> int \<Rightarrow> int list" where
  "adjacent graph v =
     map snd (filter (\<lambda>e. fst e = v) (m_edges graph)) @
     map fst (filter (\<lambda>e. snd e = v) (m_edges graph))"

text \<open>
  Modelled from the spec: \<^verbatim>\<open>GraphHandler::get_node_neighborhood_lookup_map\<close>. Section 4.1:
  every location is mapped to itself and its adjacent locations, and a graph with no
  vertex is refused with \<open>InvalidGraph\<close>.
\<close>

definition get_node_neighborhood_lookup_map ::
  "LocationUndirectedGraph \<Rightarrow> error + (int \<rightharpoonup> int list)" where
  "get_node_neighborhood_lookup_map graph =
     (if vertex_count graph = 0 then Inl InvalidGraph
      else Inr (\<lambda>v. if 0 \<le> v \<and> v < int (vertex_count graph)
                     then Some (v # adjacent graph v) else None))"

text \<open>
  \<^verbatim>\<open>neighborhood_lookup_map[current_location]\<close> is \<^verbatim>\<open>std::map::operator[]\<close>: a key that is
  absent reads as the empty vector.
\<close>

definition neighborhood_of :: "(int \<rightharpoonup> int list) \<Rightarrow> int \<Rightarrow> int list" where
  "neighborhood_of neighborhood_lookup_map l =
     (case neighborhood_lookup_map l of None \<Rightarrow> [] | Some neighborhood \<Rightarrow> neighborhood)"

section \<open>simulate\_parallel\<close>

text \<open>
  Each OpenMP loop is modelled by its execution in index order, which is the execution
  with one thread, and the one where the threads run their chunks one after the other.
  The loops below take the list of indices to visit; the phases pass \<open>[0..<max_index]\<close>.
  The orders in which a team of several threads can run the loops are the subject of the
  section on \<^verbatim>\<open>simulate_parallel\<close> with a team of workers.
  The engine receives the lookup map that line 17 builds from the graph.

  The chunk size of line 14 is \<open>max_index / DEFAULT_NUMBER_OF_THREADS\<close>, with the constant
  of \<^verbatim>\<open>Settings.h\<close>. OpenMP defines \<^verbatim>\<open>schedule(static, chunk)\<close> for a positive chunk only:
  the theorems about the parallel loops assume \<open>0 < chunk individuals\<close>, a population of
  at least four. They also assume \<open>individual_count \<le> size\<close>, which keeps the reads
  \<^verbatim>\<open>individuals[affecting_index]\<close> of line 48 inside the vector.
\<close>

definition DEFAULT_NUMBER_OF_THREADS :: int where
  "DEFAULT_NUMBER_OF_THREADS = 4"

definition chunk :: "Individual list \<Rightarrow> int" where
  "chunk individuals = int (length individuals) div DEFAULT_NUMBER_OF_THREADS"

text \<open>Movement, lines 26 to 34.\<close>

fun movement_parallel ::
  "(int \<rightharpoonup> int list) \<Rightarrow> nat list \<Rightarrow> Individual list \<Rightarrow> rng \<Rightarrow> Individual list \<times> rng" where
  "movement_parallel nlm [] individuals g = (individuals, g)"
| "movement_parallel nlm (index # rest) individuals g =
     (let current_individual = individuals ! index;
          current_location = get_location current_individual;
          neighborhood = neighborhood_of nlm current_location;
          (moved, g') = move neighborhood current_individual g
      in movement_parallel nlm rest (individuals[index := moved]) g')"

text \<open>
  The scan of lines 46 to 58 for one \<open>index\<close>: \<open>current_individual\<close> is the thread-local
  copy, \<open>individuals\<close> the shared array, read as it is when the scan runs. The array is
  written, and the scan left, only when an attempt has infected the copy.
\<close>

fun scan_parallel ::
  "Config \<Rightarrow> nat \<Rightarrow> nat list \<Rightarrow> Individual \<Rightarrow> Individual list \<Rightarrow> rng \<Rightarrow> Individual list \<times> rng" where
  "scan_parallel cfg index [] current_individual individuals g = (individuals, g)"
| "scan_parallel cfg index (affecting_index # rest) current_individual individuals g =
     (if is_infected (individuals ! affecting_index) then
        (let affecting_individual = individuals ! affecting_index
         in if get_location current_individual = get_location affecting_individual then
              (let (tried, g') = try_infect cfg current_individual g
               in if is_infected tried then (individuals[index := tried], g')
                  else scan_parallel cfg index rest tried individuals g')
            else scan_parallel cfg index rest current_individual individuals g)
      else scan_parallel cfg index rest current_individual individuals g)"

text \<open>Infection, lines 42 to 60. The scan runs over \<open>0 \<le> affecting_index < individual_count\<close>.\<close>

fun infection_parallel ::
  "Config \<Rightarrow> int \<Rightarrow> nat list \<Rightarrow> Individual list \<Rightarrow> rng \<Rightarrow> Individual list \<times> rng" where
  "infection_parallel cfg individual_count [] individuals g = (individuals, g)"
| "infection_parallel cfg individual_count (index # rest) individuals g =
     (if \<not> is_infected (individuals ! index) then
        (let current_individual = individuals ! index;
             (individuals', g') =
                scan_parallel cfg index [0..<nat individual_count] current_individual individuals g
         in infection_parallel cfg individual_count rest individuals' g')
      else infection_parallel cfg individual_count rest individuals g)"

text \<open>
  Advance and statistics, lines 65 to 82. The reduction adds the threads' partial counts,
  which is the sum the sequential loop computes.
\<close>

fun advance_parallel ::
  "Config \<Rightarrow> nat list \<Rightarrow> Individual list \<Rightarrow> int \<Rightarrow> int \<Rightarrow> Individual list \<times> int \<times> int" where
  "advance_parallel cfg [] individuals hit_count infected_count =
     (individuals, hit_count, infected_count)"
| "advance_parallel cfg (index # rest) individuals hit_count infected_count =
     (let current_individual = advance_epoch cfg (individuals ! index);
          individuals' = individuals[index := current_individual]
      in if is_infected current_individual then
           advance_parallel cfg rest individuals' (hit_count + 1) (infected_count + 1)
         else if is_hit current_individual then
           advance_parallel cfg rest individuals' (hit_count + 1) infected_count
         else advance_parallel cfg rest individuals' hit_count infected_count)"

text \<open>
  The state of a run: the population, the generator, and the statistics vector of
  \<open>(hit_count, infected_count)\<close> tuples.
\<close>

type_synonym run = "Individual list \<times> rng \<times> (int \<times> int) list"

text \<open>
  One pass through the body of the epoch loop, lines 21 to 84. \<open>max_index\<close> is the size
  of the population (the static of line 13 is initialised by the first call, and \<open>main\<close>
  calls with populations of one size).
\<close>

definition epoch_parallel :: "Config \<Rightarrow> (int \<rightharpoonup> int list) \<Rightarrow> int \<Rightarrow> run \<Rightarrow> run" where
  "epoch_parallel cfg nlm individual_count st =
     (case st of (individuals, g, epoch_statistics) \<Rightarrow>
        (let max_index = length individuals;
             (moved, g1) = movement_parallel nlm [0..<max_index] individuals g;
             (infected, g2) = infection_parallel cfg individual_count [0..<max_index] moved g1;
             (advanced, hit_count, infected_count) =
                advance_parallel cfg [0..<max_index] infected 0 0
         in (advanced, g2, epoch_statistics @ [(hit_count, infected_count)])))"

text \<open>
  The epoch loop of line 20. \<open>current_epoch\<close> and \<open>total_epochs\<close> are
  \<^verbatim>\<open>std::uint8_t\<close>; the comparison \<^verbatim>\<open>current_epoch < (total_epochs + 1)\<close> is made on the
  promoted \<^verbatim>\<open>int\<close> values, and \<^verbatim>\<open>++current_epoch\<close> wraps at 256. The loop need not end, so
  it runs on fuel: \<open>None\<close> says that the fuel did not suffice.
\<close>

fun epochs_parallel ::
  "nat \<Rightarrow> Config \<Rightarrow> (int \<rightharpoonup> int list) \<Rightarrow> int \<Rightarrow> 8 word \<Rightarrow> 8 word \<Rightarrow> run \<Rightarrow> run option" where
  "epochs_parallel 0 cfg nlm individual_count total_epochs current_epoch st = None"
| "epochs_parallel (Suc fuel) cfg nlm individual_count total_epochs current_epoch st =
     (if uint current_epoch < uint total_epochs + 1 then
        epochs_parallel fuel cfg nlm individual_count total_epochs (current_epoch + 1)
          (epoch_parallel cfg nlm individual_count st)
      else Some st)"

text \<open>
  \<^verbatim>\<open>simulate_parallel\<close>. \<^verbatim>\<open>SAVE_CSV\<close>, \<^verbatim>\<open>SAVE_GRAPHVIZ\<close> and \<^verbatim>\<open>SHOW_EPIDEMIC_RESULTS\<close> are
  \<^verbatim>\<open>false\<close> in \<^verbatim>\<open>Settings.h\<close>, so nothing follows the loop.
\<close>

definition simulate_parallel ::
  "nat \<Rightarrow> Config \<Rightarrow> (int \<rightharpoonup> int list) \<Rightarrow> int \<Rightarrow> 8 word \<Rightarrow> run \<Rightarrow> run option" where
  "simulate_parallel fuel cfg nlm individual_count total_epochs st =
     epochs_parallel fuel cfg nlm individual_count total_epochs 0 st"

section \<open>simulate\_serial\<close>

text \<open>Movement, lines 107 and 108: a range-based loop over the population.\<close>

fun movement_serial ::
  "(int \<rightharpoonup> int list) \<Rightarrow> Individual list \<Rightarrow> rng \<Rightarrow> Individual list \<times> rng" where
  "movement_serial nlm [] g = ([], g)"
| "movement_serial nlm (current_individual # rest) g =
     (let (moved, g') =
            move (neighborhood_of nlm (get_location current_individual)) current_individual g;
          (rest', g'') = movement_serial nlm rest g'
      in (moved # rest', g''))"

text \<open>The inner loop of lines 116 to 123, for one infected \<open>individual_index\<close>.\<close>

fun spread_serial ::
  "Config \<Rightarrow> nat \<Rightarrow> nat list \<Rightarrow> Individual list \<Rightarrow> rng \<Rightarrow> Individual list \<times> rng" where
  "spread_serial cfg individual_index [] individuals g = (individuals, g)"
| "spread_serial cfg individual_index (affecting_individual # rest) individuals g =
     (if individual_index \<noteq> affecting_individual then
        (if get_location (individuals ! individual_index) =
            get_location (individuals ! affecting_individual) then
           (let (tried, g') = try_infect cfg (individuals ! affecting_individual) g
            in spread_serial cfg individual_index rest
                 (individuals[affecting_individual := tried]) g')
         else spread_serial cfg individual_index rest individuals g)
      else spread_serial cfg individual_index rest individuals g)"

text \<open>Infection, lines 111 to 125.\<close>

fun infection_serial ::
  "Config \<Rightarrow> nat list \<Rightarrow> Individual list \<Rightarrow> rng \<Rightarrow> Individual list \<times> rng" where
  "infection_serial cfg [] individuals g = (individuals, g)"
| "infection_serial cfg (individual_index # rest) individuals g =
     (if is_infected (individuals ! individual_index) then
        (let (individuals', g') =
               spread_serial cfg individual_index [0..<length individuals] individuals g
         in infection_serial cfg rest individuals' g')
      else infection_serial cfg rest individuals g)"

text \<open>Advance and statistics, lines 127 to 138.\<close>

fun advance_serial ::
  "Config \<Rightarrow> Individual list \<Rightarrow> int \<Rightarrow> int \<Rightarrow> Individual list \<times> int \<times> int" where
  "advance_serial cfg [] hit_count infected_count = ([], hit_count, infected_count)"
| "advance_serial cfg (current_individual # rest) hit_count infected_count =
     (let advanced = advance_epoch cfg current_individual;
          infected_count' = (if is_infected advanced then infected_count + 1 else infected_count);
          hit_count' = (if is_hit advanced then hit_count + 1 else hit_count);
          (rest', h, i) = advance_serial cfg rest hit_count' infected_count'
      in (advanced # rest', h, i))"

definition epoch_serial :: "Config \<Rightarrow> (int \<rightharpoonup> int list) \<Rightarrow> run \<Rightarrow> run" where
  "epoch_serial cfg nlm st =
     (case st of (individuals, g, epoch_statistics) \<Rightarrow>
        (let (moved, g1) = movement_serial nlm individuals g;
             (infected, g2) = infection_serial cfg [0..<length moved] moved g1;
             (advanced, hit_count, infected_count) = advance_serial cfg infected 0 0
         in (advanced, g2, epoch_statistics @ [(hit_count, infected_count)])))"

text \<open>
  The epoch loop of line 104, on \<^verbatim>\<open>int\<close>. \<^verbatim>\<open>total_epochs + 1\<close> does not overflow for
  \<open>total_epochs < 2147483647\<close>, which the theorems about this loop assume where the number
  of epochs matters.
\<close>

function epochs_serial :: "Config \<Rightarrow> (int \<rightharpoonup> int list) \<Rightarrow> int \<Rightarrow> int \<Rightarrow> run \<Rightarrow> run" where
  "epochs_serial cfg nlm total_epochs current_epoch st =
     (if current_epoch < total_epochs + 1 then
        epochs_serial cfg nlm total_epochs (current_epoch + 1) (epoch_serial cfg nlm st)
      else st)"
  by pat_completeness auto
termination
  by (relation "measure (\<lambda>(cfg, nlm, total_epochs, current_epoch, st).
        nat (total_epochs + 1 - current_epoch))") auto

text \<open>
  \<^verbatim>\<open>simulate_serial\<close>. Its statistics vector is a local that starts empty; the model
  returns it with the population.
\<close>

definition simulate_serial ::
  "Config \<Rightarrow> (int \<rightharpoonup> int list) \<Rightarrow> int \<Rightarrow> Individual list \<Rightarrow> rng \<Rightarrow> run" where
  "simulate_serial cfg nlm total_epochs individuals g =
     epochs_serial cfg nlm total_epochs 0 (individuals, g, [])"

section \<open>reset\_input\<close>

text \<open>
  Modelled from the spec: \<^verbatim>\<open>GraphHandler::get_random_individuals\<close>. Section 3: the population
  is created from a random assignment of locations; every individual starts Susceptible.
  The location is one draw reduced to the \<open>location_count\<close> vertices, which is defined
  for a graph with a vertex; the theorem about \<^verbatim>\<open>reset_input\<close> assumes one.
\<close>

fun get_random_individuals :: "nat \<Rightarrow> int \<Rightarrow> rng \<Rightarrow> Individual list \<times> rng" where
  "get_random_individuals 0 location_count g = ([], g)"
| "get_random_individuals (Suc individual_count) location_count g =
     (let (r, g') = next_draw g;
          (rest, g'') = get_random_individuals individual_count location_count g'
      in (\<lparr>location = int r mod location_count, infectionState = Susceptible,
           infectedDuration = 0, everHit = False\<rparr> # rest, g''))"

text \<open>
  The loop of lines 160 to 162. \<^verbatim>\<open>individuals[i]\<close> is not checked by \<^verbatim>\<open>std::vector\<close>: an
  index beyond the population is undefined behaviour, which the model reports as
  \<open>IndexOutOfRange\<close>.
\<close>

fun infect_initial :: "nat list \<Rightarrow> Individual list \<Rightarrow> error + Individual list" where
  "infect_initial [] individuals = Inr individuals"
| "infect_initial (i # rest) individuals =
     (if i < length individuals
      then infect_initial rest (individuals[i := infect (individuals ! i)])
      else Inl IndexOutOfRange)"

text \<open>
  \<^verbatim>\<open>reset_input\<close>. The graph is the one that the loader has read from the file;
  \<^verbatim>\<open>INITIAL_INFECTED_COUNT\<close> is a constant that \<^verbatim>\<open>Settings.h\<close> does not define, and a
  parameter here. The result holds \<open>location_count\<close>, \<open>edge_count\<close> and the population.
\<close>

definition reset_input ::
  "int \<Rightarrow> LocationUndirectedGraph \<Rightarrow> int \<Rightarrow> rng \<Rightarrow> error + (int \<times> int \<times> Individual list \<times> rng)" where
  "reset_input INITIAL_INFECTED_COUNT individual_graph individual_count g =
     (let location_count = int (vertex_count individual_graph);
          edge_count = int (length (m_edges individual_graph));
          (individuals, g') = get_random_individuals (nat individual_count) location_count g
      in case infect_initial [0..<nat INITIAL_INFECTED_COUNT] individuals of
           Inl e \<Rightarrow> Inl e
         | Inr seeded_individuals \<Rightarrow> Inr (location_count, edge_count, seeded_individuals, g'))"

section \<open>The invocations of try\_infect\<close>

text \<open>
  To speak about the calls of \<^verbatim>\<open>try_infect\<close>, the two infection loops are run once more
  with a log. An entry records one call: the index of the individual on which
  \<^verbatim>\<open>try_infect\<close> is called, that individual as it is when the call is made, the index of
  the infected individual that caused the call, that individual, and whether the call left
  its individual infected. The functions below follow the control flow of \<open>scan_parallel\<close>,
  \<open>infection_parallel\<close>, \<open>spread_serial\<close> and \<open>infection_serial\<close>, and take the array
  after each scan from them.
\<close>

datatype attempt =
  Attempt (target: nat) (copy: Individual) (source: nat) (contact: Individual) (succeeded: bool)

fun scan_parallel_calls ::
  "Config \<Rightarrow> nat \<Rightarrow> nat list \<Rightarrow> Individual \<Rightarrow> Individual list \<Rightarrow> rng \<Rightarrow> attempt list" where
  "scan_parallel_calls cfg index [] current_individual individuals g = []"
| "scan_parallel_calls cfg index (affecting_index # rest) current_individual individuals g =
     (if is_infected (individuals ! affecting_index) then
        (let affecting_individual = individuals ! affecting_index
         in if get_location current_individual = get_location affecting_individual then
              (let (tried, g') = try_infect cfg current_individual g
               in Attempt index current_individual affecting_index affecting_individual
                    (is_infected tried) #
                  (if is_infected tried then []
                   else scan_parallel_calls cfg index rest tried individuals g'))
            else scan_parallel_calls cfg index rest current_individual individuals g)
      else scan_parallel_calls cfg index rest current_individual individuals g)"

fun infection_parallel_calls ::
  "Config \<Rightarrow> int \<Rightarrow> nat list \<Rightarrow> Individual list \<Rightarrow> rng \<Rightarrow> attempt list" where
  "infection_parallel_calls cfg individual_count [] individuals g = []"
| "infection_parallel_calls cfg individual_count (index # rest) individuals g =
     (if \<not> is_infected (individuals ! index) then
        (let current_individual = individuals ! index;
             (individuals', g') =
                scan_parallel cfg index [0..<nat individual_count] current_individual individuals g
         in scan_parallel_calls cfg index [0..<nat individual_count] current_individual individuals g @
            infection_parallel_calls cfg individual_count rest individuals' g')
      else infection_parallel_calls cfg individual_count rest individuals g)"

fun spread_serial_calls ::
  "Config \<Rightarrow> nat \<Rightarrow> nat list \<Rightarrow> Individual list \<Rightarrow> rng \<Rightarrow> attempt list" where
  "spread_serial_calls cfg individual_index [] individuals g = []"
| "spread_serial_calls cfg individual_index (affecting_individual # rest) individuals g =
     (if individual_index \<noteq> affecting_individual then
        (if get_location (individuals ! individual_index) =
            get_location (individuals ! affecting_individual) then
           (let (tried, g') = try_infect cfg (individuals ! affecting_individual) g
            in Attempt affecting_individual (individuals ! affecting_individual)
                 individual_index (individuals ! individual_index) (is_infected tried) #
               spread_serial_calls cfg individual_index rest
                 (individuals[affecting_individual := tried]) g')
         else spread_serial_calls cfg individual_index rest individuals g)
      else spread_serial_calls cfg individual_index rest individuals g)"

fun infection_serial_calls ::
  "Config \<Rightarrow> nat list \<Rightarrow> Individual list \<Rightarrow> rng \<Rightarrow> attempt list" where
  "infection_serial_calls cfg [] individuals g = []"
| "infection_serial_calls cfg (individual_index # rest) individuals g =
     (if is_infected (individuals ! individual_index) then
        (let (individuals', g') =
               spread_serial cfg individual_index [0..<length individuals] individuals g
         in spread_serial_calls cfg individual_index [0..<length individuals] individuals g @
            infection_serial_calls cfg rest individuals' g')
      else infection_serial_calls cfg rest individuals g)"

section \<open>The snapshot rule\<close>

text \<open>
  Section 4.3 of the specification asks that the infection phase read the population as
  it was when the phase started. This is the loop of \<open>infection_parallel\<close> under that
  rule: every read is served by \<open>snapshot\<close>, the population at the start of the phase,
  and the writes go to \<open>individuals\<close>.
\<close>

fun infection_parallel_snapshot ::
  "Config \<Rightarrow> int \<Rightarrow> nat list \<Rightarrow> Individual list \<Rightarrow> Individual list \<Rightarrow> rng
     \<Rightarrow> Individual list \<times> rng" where
  "infection_parallel_snapshot cfg individual_count [] snapshot individuals g = (individuals, g)"
| "infection_parallel_snapshot cfg individual_count (index # rest) snapshot individuals g =
     (if \<not> is_infected (snapshot ! index) then
        (let current_individual = snapshot ! index;
             (seen, g') =
                scan_parallel cfg index [0..<nat individual_count] current_individual snapshot g
         in infection_parallel_snapshot cfg individual_count rest snapshot
              (individuals[index := seen ! index]) g')
      else infection_parallel_snapshot cfg individual_count rest snapshot individuals g)"

section \<open>simulate\_parallel with a team of workers\<close>

text \<open>
  With more than one thread the code does not fix the order in which the iterations of
  an OpenMP loop run. \<^verbatim>\<open>schedule(static, chunk)\<close> cuts the iterations into chunks of
  \<^verbatim>\<open>chunk\<close> consecutive indices and deals the chunks to the threads of the team in turn,
  by thread number; a thread runs its own iterations in increasing order, and the
  iterations of different threads interleave. Each of the three loops is in a parallel
  region of its own, which ends with a barrier, so the loops of an epoch do not overlap.
  The worker of an iteration is the thread that runs it.
\<close>

definition worker_of :: "int \<Rightarrow> nat \<Rightarrow> nat \<Rightarrow> nat" where
  "worker_of chunk_size workers index = (index div nat chunk_size) mod workers"

text \<open>The iterations \<^verbatim>\<open>0 <= index < max_index\<close> that worker \<open>w\<close> runs, in the order it runs them.\<close>

definition worker_indices :: "int \<Rightarrow> int \<Rightarrow> nat \<Rightarrow> nat \<Rightarrow> nat list" where
  "worker_indices chunk_size max_index workers w =
     filter (\<lambda>index. worker_of chunk_size workers index = w) [0..<nat max_index]"

text \<open>
  An execution of a loop by the team is taken one iteration at a time: it is the list of
  the indices in the order in which their iterations run. Such an order interleaves the
  workers' sequences: what it holds of each worker is that worker's sequence.
\<close>

definition parallel_order :: "int \<Rightarrow> int \<Rightarrow> nat \<Rightarrow> nat list \<Rightarrow> bool" where
  "parallel_order chunk_size max_index workers order =
     list_all (\<lambda>w. filter (\<lambda>index. worker_of chunk_size workers index = w) order =
                    worker_indices chunk_size max_index workers w) [0..<workers]"

text \<open>
  An epoch runs three loops, for movement, infection and advance, each with an order of
  its own.
\<close>

type_synonym orders = "nat list \<times> nat list \<times> nat list"

definition scheduled :: "int \<Rightarrow> int \<Rightarrow> nat \<Rightarrow> orders \<Rightarrow> bool" where
  "scheduled chunk_size max_index workers epoch_orders =
     (case epoch_orders of (movement_order, infection_order, advance_order) \<Rightarrow>
        parallel_order chunk_size max_index workers movement_order \<and>
        parallel_order chunk_size max_index workers infection_order \<and>
        parallel_order chunk_size max_index workers advance_order)"

text \<open>The three loops in index order, which is how \<open>epoch_parallel\<close> runs them.\<close>

definition index_order :: "int \<Rightarrow> orders" where
  "index_order max_index = ([0..<nat max_index], [0..<nat max_index], [0..<nat max_index])"

text \<open>
  The body of the epoch loop, lines 21 to 84, with the three loops run in given orders.
  The generator is shared by the team: the draws are handed out in the order in which
  the iterations take them.
\<close>

definition epoch_parallel_scheduled ::
  "Config \<Rightarrow> (int \<rightharpoonup> int list) \<Rightarrow> int \<Rightarrow> orders \<Rightarrow> run \<Rightarrow> run" where
  "epoch_parallel_scheduled cfg nlm individual_count epoch_orders st =
     (case st of (individuals, g, epoch_statistics) \<Rightarrow>
        (case epoch_orders of (movement_order, infection_order, advance_order) \<Rightarrow>
           (let (moved, g1) = movement_parallel nlm movement_order individuals g;
                (infected, g2) = infection_parallel cfg individual_count infection_order moved g1;
                (advanced, hit_count, infected_count) =
                   advance_parallel cfg advance_order infected 0 0
            in (advanced, g2, epoch_statistics @ [(hit_count, infected_count)]))))"

text \<open>
  The epoch loop of line 20 and \<^verbatim>\<open>simulate_parallel\<close>, as \<open>epochs_parallel\<close> and
  \<open>simulate_parallel\<close> above. \<open>schedule\<close> gives the orders of the passes still to run,
  \<open>schedule 0\<close> those of the next one.
\<close>

fun epochs_parallel_scheduled ::
  "nat \<Rightarrow> Config \<Rightarrow> (int \<rightharpoonup> int list) \<Rightarrow> int \<Rightarrow> (nat \<Rightarrow> orders) \<Rightarrow> 8 word \<Rightarrow> 8 word \<Rightarrow> run
     \<Rightarrow> run option" where
  "epochs_parallel_scheduled 0 cfg nlm individual_count schedule total_epochs current_epoch st =
     None"
| "epochs_parallel_scheduled (Suc fuel) cfg nlm individual_count schedule total_epochs
     current_epoch st =
     (if uint current_epoch < uint total_epochs + 1 then
        epochs_parallel_scheduled fuel cfg nlm individual_count (\<lambda>e. schedule (Suc e))
          total_epochs (current_epoch + 1)
          (epoch_parallel_scheduled cfg nlm individual_count (schedule 0) st)
      else Some st)"

definition simulate_parallel_scheduled ::
  "nat \<Rightarrow> Config \<Rightarrow> (int \<rightharpoonup> int list) \<Rightarrow> int \<Rightarrow> (nat \<Rightarrow> orders) \<Rightarrow> 8 word \<Rightarrow> run \<Rightarrow> run option" where
  "simulate_parallel_scheduled fuel cfg nlm individual_count schedule total_epochs st =
     epochs_parallel_scheduled fuel cfg nlm individual_count schedule total_epochs 0 st"

section \<open>Notions used by the theorems\<close>

text \<open>The statistics vector of a run, and a run whose vector starts with prior contents.\<close>

definition stats_of :: "run \<Rightarrow> (int \<times> int) list" where
  "stats_of st = snd (snd st)"

definition prepend :: "(int \<times> int) list \<Rightarrow> run \<Rightarrow> run" where
  "prepend prior st = (case st of (individuals, g, epoch_statistics) \<Rightarrow>
     (individuals, g, prior @ epoch_statistics))"

text \<open>
  The invariant of the class \<^verbatim>\<open>Individual\<close>: an infected individual has been hit. The
  forced infection and a successful attempt set both, and no method clears the flag.
\<close>

definition hit_if_infected :: "Individual \<Rightarrow> bool" where
  "hit_if_infected p = (is_infected p \<longrightarrow> is_hit p)"

text \<open>
  What an epoch may do to one slot of the population: the cumulative flag is kept, and so
  is the invariant.
\<close>

definition evolves :: "Individual \<Rightarrow> Individual \<Rightarrow> bool" where
  "evolves p p' = ((is_hit p \<longrightarrow> is_hit p') \<and> (hit_if_infected p \<longrightarrow> hit_if_infected p'))"

text \<open>The number of individuals that have ever been hit.\<close>

definition hits :: "Individual list \<Rightarrow> int" where
  "hits individuals = int (length (filter is_hit individuals))"

text \<open>
  The hit counts recorded so far are in non-decreasing order, and none exceeds the number
  of individuals hit in the current population.
\<close>

definition monotone_hits :: "run \<Rightarrow> bool" where
  "monotone_hits st = (sorted (map fst (stats_of st)) \<and>
     (\<forall>e\<in>set (stats_of st). fst e \<le> hits (fst st)))"

text \<open>The population and the generator of a run.\<close>

definition population_of :: "run \<Rightarrow> Individual list" where
  "population_of st = fst st"

definition generator_of :: "run \<Rightarrow> rng" where
  "generator_of st = fst (snd st)"

text \<open>
  The vertices of a graph, and the property of a Boost adjacency list that every edge
  joins two of its vertices.
\<close>

definition is_vertex :: "LocationUndirectedGraph \<Rightarrow> int \<Rightarrow> bool" where
  "is_vertex graph v = (0 \<le> v \<and> v < int (vertex_count graph))"

definition edges_in_graph :: "LocationUndirectedGraph \<Rightarrow> bool" where
  "edges_in_graph graph =
     (\<forall>e\<in>set (m_edges graph). is_vertex graph (fst e) \<and> is_vertex graph (snd e))"

text \<open>
  What the movement phase is to do to one slot: the location before the move is in its
  own neighbourhood, and so is the location after it.
\<close>

definition within_neighborhood :: "(int \<rightharpoonup> int list) \<Rightarrow> Individual \<Rightarrow> Individual \<Rightarrow> bool" where
  "within_neighborhood nlm before after =
     (location before \<in> set (neighborhood_of nlm (location before)) \<and>
      location after \<in> set (neighborhood_of nlm (location before)))"

text \<open>
  An individual is exposed in a population when it is Susceptible and shares its location
  with an infected member of the population; \<open>reached q p\<close> says that \<open>q\<close> is at the
  location of the Susceptible \<open>p\<close>. The outbreak of a population infects exactly its
  exposed members: it is a function of the population at the start of the phase.
\<close>

definition exposed :: "Individual list \<Rightarrow> Individual \<Rightarrow> bool" where
  "exposed snapshot p =
     (infectionState p = Susceptible \<and>
      (\<exists>q\<in>set snapshot. is_infected q \<and> get_location q = get_location p))"

definition reached :: "Individual \<Rightarrow> Individual \<Rightarrow> bool" where
  "reached q p = (infectionState p = Susceptible \<and> get_location q = get_location p)"

definition outbreak :: "Individual list \<Rightarrow> Individual list" where
  "outbreak snapshot = map (\<lambda>p. if exposed snapshot p then infect p else p) snapshot"

text \<open>The generator after \<open>m\<close> further draws.\<close>

definition after_draws :: "rng \<Rightarrow> nat \<Rightarrow> rng" where
  "after_draws g m = Rng (draws g) (taken g + m)"

text \<open>
  A loop over the population that has visited some of the indices: the slots in
  \<open>visited\<close> hold what the loop makes of them, the others are as they were.
\<close>

definition partly ::
  "(Individual \<Rightarrow> Individual) \<Rightarrow> nat set \<Rightarrow> Individual list \<Rightarrow> Individual list" where
  "partly f visited individuals =
     map (\<lambda>k. if k \<in> visited then f (individuals ! k) else individuals ! k)
       [0..<length individuals]"

text \<open>An order that runs each iteration \<^verbatim>\<open>0 <= index < max_index\<close> once.\<close>

definition visits_each_once :: "int \<Rightarrow> nat list \<Rightarrow> bool" where
  "visits_each_once max_index order = (distinct order \<and> set order = {0..<nat max_index})"

text \<open>
  A lookup map that leaves no choice: the neighbourhood of a location holds no other
  location, so that a move changes no location.
\<close>

definition stays_put :: "(int \<rightharpoonup> int list) \<Rightarrow> bool" where
  "stays_put nlm = (\<forall>l. set (neighborhood_of nlm l) \<subseteq> {l})"

section \<open>Concrete inputs\<close>

text \<open>
  An individual at a location in a given state, with the flag an infection sets; a
  disease of threshold 2 in which a draw infects unless it is 0; the lookup map of a
  graph with the single location 0.
\<close>

definition seeded :: "int \<Rightarrow> InfectionState \<Rightarrow> Individual" where
  "seeded l s = \<lparr>location = l, infectionState = s, infectedDuration = 0,
                 everHit = (s \<noteq> Susceptible)\<rparr>"

definition cfg2 :: Config where
  "cfg2 = \<lparr>diseaseDurationThreshold = 2, infects = (\<lambda>r. r \<noteq> 0)\<rparr>"

definition one_location :: "int \<rightharpoonup> int list" where
  "one_location = [0 \<mapsto> [0]]"

text \<open>Four individuals at one location, the first of them infected.\<close>

definition quartet :: "Individual list" where
  "quartet = [seeded 0 Infected, seeded 0 Susceptible, seeded 0 Susceptible, seeded 0 Susceptible]"

text \<open>Four individuals: an infected, a susceptible and a recovered one at 0, a susceptible one at 1.\<close>

definition mixed :: "Individual list" where
  "mixed = [seeded 0 Infected, seeded 0 Susceptible, seeded 0 Recovered, seeded 1 Susceptible]"

text \<open>Four individuals at one location: two infected, a recovered and a susceptible one.\<close>

definition crowd :: "Individual list" where
  "crowd = [seeded 0 Infected, seeded 0 Infected, seeded 0 Recovered, seeded 0 Susceptible]"

text \<open>
  A graph of two locations joined by an edge, and the lookup map that section 4.1
  prescribes for it.
\<close>

definition two_locations :: LocationUndirectedGraph where
  "two_locations = \<lparr>vertex_count = 2, m_edges = [(0, 1)]\<rparr>"

definition two_locations_map :: "int \<rightharpoonup> int list" where
  "two_locations_map =
     (\<lambda>v. if 0 \<le> v \<and> v < 2 then Some (v # adjacent two_locations v) else None)"

section \<open>The methods of an individual\<close>

lemma try_infect_cases:
  assumes "try_infect cfg p g = (p', g')"
  shows "(p' = p \<and> (g' = g \<or> g' = Rng (draws g) (Suc (taken g)))) \<or>
         (infectionState p = Susceptible \<and> p' = infect p \<and> g' = Rng (draws g) (Suc (taken g)))"
  using assms by (auto simp: try_infect_def next_draw_def Let_def split: if_splits)

lemma is_infected_infect: "is_infected (infect p)"
  by (simp add: is_infected_def infect_def)

lemma location_infect: "location (infect p) = location p"
  by (simp add: infect_def)

lemma move_keeps:
  assumes "move candidates p g = (p', g')"
  shows "infectionState p' = infectionState p \<and> infectedDuration p' = infectedDuration p \<and>
         everHit p' = everHit p"
  using assms by (auto simp: move_def next_draw_def Let_def split: if_splits)

lemma advance_epoch_keeps:
  "everHit (advance_epoch cfg p) = everHit p \<and> location (advance_epoch cfg p) = location p"
  by (simp add: advance_epoch_def Let_def)

lemma advance_epoch_infected: "is_infected (advance_epoch cfg p) \<Longrightarrow> is_infected p"
  by (simp add: advance_epoch_def is_infected_def Let_def split: if_splits)

section \<open>The epoch loops\<close>

text \<open>
  With \<open>total_epochs = 255\<close> the condition of line 20 compares a value below 256 with
  256: the loop of \<^verbatim>\<open>simulate_parallel\<close> is never left.
\<close>

lemma epochs_parallel_never_returns:
  "epochs_parallel fuel cfg nlm individual_count 255 current_epoch st = None"
proof (induction fuel arbitrary: current_epoch st)
  case 0
  show ?case by simp
next
  case (Suc fuel)
  have "uint current_epoch < 2 ^ LENGTH(8)" by (rule uint_lt2p)
  then have "uint current_epoch < uint (255 :: 8 word) + 1" by simp
  then show ?case using Suc.IH by simp
qed

text \<open>Otherwise the loop runs its body for each epoch from \<open>current_epoch\<close> to \<open>total_epochs\<close>.\<close>

lemma epochs_parallel_funpow:
  assumes "unat total_epochs < 255" and "unat current_epoch \<le> unat total_epochs + 1"
    and "unat total_epochs + 1 - unat current_epoch < fuel"
  shows "epochs_parallel fuel cfg nlm individual_count total_epochs current_epoch st =
         Some ((epoch_parallel cfg nlm individual_count ^^
                  (unat total_epochs + 1 - unat current_epoch)) st)"
  using assms
proof (induction fuel arbitrary: current_epoch st)
  case 0
  then show ?case by simp
next
  case (Suc fuel)
  show ?case
  proof (cases "uint current_epoch < uint total_epochs + 1")
    case True
    then have lt: "unat current_epoch < unat total_epochs + 1"
      unfolding uint_nat by linarith
    then have nowrap: "unat (current_epoch + 1) = unat current_epoch + 1"
      using Suc.prems(1) by (simp add: unat_word_ariths)
    have "epochs_parallel fuel cfg nlm individual_count total_epochs (current_epoch + 1)
            (epoch_parallel cfg nlm individual_count st) =
          Some ((epoch_parallel cfg nlm individual_count ^^
                  (unat total_epochs + 1 - unat (current_epoch + 1)))
                  (epoch_parallel cfg nlm individual_count st))"
      using Suc.prems lt nowrap by (intro Suc.IH) auto
    moreover have "unat total_epochs + 1 - unat current_epoch =
                   Suc (unat total_epochs + 1 - unat (current_epoch + 1))"
      using lt nowrap by simp
    ultimately show ?thesis using True by (simp add: funpow_swap1)
  next
    case False
    then have "unat total_epochs + 1 \<le> unat current_epoch"
      unfolding uint_nat by linarith
    then have "unat total_epochs + 1 - unat current_epoch = 0"
      by simp
    then show ?thesis using False by simp
  qed
qed

lemma simulate_parallel_funpow:
  assumes "total_epochs \<noteq> 255" and "unat total_epochs + 1 < fuel"
  shows "simulate_parallel fuel cfg nlm individual_count total_epochs st =
         Some ((epoch_parallel cfg nlm individual_count ^^ (unat total_epochs + 1)) st)"
proof -
  have "unat total_epochs \<noteq> unat (255 :: 8 word)"
    using assms(1) by (simp add: word_unat_eq_iff)
  moreover have "unat total_epochs < 2 ^ LENGTH(8)" by (rule unsigned_less)
  ultimately have "unat total_epochs < 255" by simp
  then show ?thesis
    using assms(2) epochs_parallel_funpow [of total_epochs 0 fuel cfg nlm individual_count st]
    by (simp add: simulate_parallel_def)
qed

lemma epochs_serial_funpow:
  "epochs_serial cfg nlm total_epochs current_epoch st =
   (epoch_serial cfg nlm ^^ nat (total_epochs + 1 - current_epoch)) st"
proof (induction cfg nlm total_epochs current_epoch st rule: epochs_serial.induct)
  case (1 cfg nlm total_epochs current_epoch st)
  show ?case
  proof (cases "current_epoch < total_epochs + 1")
    case True
    then have "nat (total_epochs + 1 - current_epoch) =
               Suc (nat (total_epochs + 1 - (current_epoch + 1)))" by simp
    then show ?thesis using True "1.IH"
      by (subst epochs_serial.simps) (simp add: funpow_swap1 del: epochs_serial.simps)
  next
    case False
    then show ?thesis by (subst epochs_serial.simps) simp
  qed
qed

lemma simulate_serial_funpow:
  "simulate_serial cfg nlm total_epochs individuals g =
   (epoch_serial cfg nlm ^^ nat (total_epochs + 1)) (individuals, g, [])"
  by (simp add: simulate_serial_def epochs_serial_funpow del: epochs_serial.simps)

lemma funpow_invariant:
  assumes "P st" and "\<And>s. P s \<Longrightarrow> P (f s)"
  shows "P ((f ^^ k) st)"
  by (induction k) (simp_all add: assms)

subsection \<open>The statistics vector only grows\<close>

lemma epoch_parallel_prepend:
  "epoch_parallel cfg nlm n (prepend prior st) = prepend prior (epoch_parallel cfg nlm n st)"
  by (cases st) (simp add: epoch_parallel_def prepend_def Let_def split: prod.splits)

lemma epoch_serial_prepend:
  "epoch_serial cfg nlm (prepend prior st) = prepend prior (epoch_serial cfg nlm st)"
  by (cases st) (simp add: epoch_serial_def prepend_def Let_def split: prod.splits)

lemma funpow_prepend:
  assumes "\<And>st. f (prepend prior st) = prepend prior (f st)"
  shows "(f ^^ k) (prepend prior st) = prepend prior ((f ^^ k) st)"
  by (induction k) (simp_all add: assms)

lemma length_stats_epoch_parallel:
  "length (stats_of (epoch_parallel cfg nlm n st)) = Suc (length (stats_of st))"
  by (cases st) (simp add: epoch_parallel_def stats_of_def Let_def split: prod.splits)

lemma length_stats_epoch_serial:
  "length (stats_of (epoch_serial cfg nlm st)) = Suc (length (stats_of st))"
  by (cases st) (simp add: epoch_serial_def stats_of_def Let_def split: prod.splits)

lemma funpow_length_stats:
  assumes "\<And>st. length (stats_of (f st)) = Suc (length (stats_of st))"
  shows "length (stats_of ((f ^^ k) st)) = length (stats_of st) + k"
  by (induction k) (simp_all add: assms)

lemma epochs_parallel_prepend:
  "epochs_parallel fuel cfg nlm n total_epochs current_epoch (prepend prior st) =
   map_option (prepend prior) (epochs_parallel fuel cfg nlm n total_epochs current_epoch st)"
  by (induction fuel arbitrary: current_epoch st) (simp_all add: epoch_parallel_prepend)

lemma prepend_Nil: "prepend prior (individuals, g, []) = (individuals, g, prior)"
  by (simp add: prepend_def)

lemma stats_of_prepend: "stats_of (prepend prior st) = prior @ stats_of st"
  by (cases st) (simp add: prepend_def stats_of_def)

lemma epochs_parallel_length:
  "epochs_parallel fuel cfg nlm n total_epochs current_epoch st = Some st' \<Longrightarrow>
   unat current_epoch \<le> unat total_epochs + 1 \<Longrightarrow>
   length (stats_of st') = length (stats_of st) + (unat total_epochs + 1 - unat current_epoch)"
proof (induction fuel arbitrary: current_epoch st)
  case 0
  then show ?case by simp
next
  case (Suc fuel)
  have ne: "total_epochs \<noteq> 255"
    using Suc.prems(1) epochs_parallel_never_returns by fastforce
  have "unat total_epochs \<noteq> unat (255 :: 8 word)"
    using ne by (simp add: word_unat_eq_iff)
  moreover have "unat total_epochs < 2 ^ LENGTH(8)" by (rule unsigned_less)
  ultimately have lt255: "unat total_epochs < 255" by simp
  have "Suc (unat total_epochs + 1 - unat current_epoch) \<le> Suc fuel \<or> True" by simp
  show ?case
  proof (cases "uint current_epoch < uint total_epochs + 1")
    case True
    then have lt: "unat current_epoch < unat total_epochs + 1"
      unfolding uint_nat by linarith
    then have nowrap: "unat (current_epoch + 1) = unat current_epoch + 1"
      using lt255 by (simp add: unat_word_ariths)
    have "epochs_parallel fuel cfg nlm n total_epochs (current_epoch + 1)
            (epoch_parallel cfg nlm n st) = Some st'"
      using Suc.prems(1) True by simp
    then have "length (stats_of st') = length (stats_of (epoch_parallel cfg nlm n st)) +
                 (unat total_epochs + 1 - unat (current_epoch + 1))"
      using lt nowrap by (intro Suc.IH) auto
    then show ?thesis using lt nowrap by (simp add: length_stats_epoch_parallel)
  next
    case False
    then have "unat total_epochs + 1 \<le> unat current_epoch"
      unfolding uint_nat by linarith
    moreover have "st' = st" using Suc.prems(1) False by simp
    ultimately show ?thesis by simp
  qed
qed

subsection \<open>Advance and statistics\<close>

lemma advance_serial_map:
  "advance_serial cfg individuals hit_count infected_count =
     (map (advance_epoch cfg) individuals,
      hit_count + int (length (filter is_hit (map (advance_epoch cfg) individuals))),
      infected_count + int (length (filter is_infected (map (advance_epoch cfg) individuals))))"
  by (induction individuals arbitrary: hit_count infected_count) (simp_all add: Let_def)

lemma advance_parallel_upt:
  "k \<le> length individuals \<Longrightarrow>
   advance_parallel cfg [k..<length individuals] individuals hit_count infected_count =
     (take k individuals @ map (advance_epoch cfg) (drop k individuals),
      hit_count + int (length (filter (\<lambda>p. is_infected p \<or> is_hit p)
                                 (map (advance_epoch cfg) (drop k individuals)))),
      infected_count + int (length (filter is_infected
                                 (map (advance_epoch cfg) (drop k individuals)))))"
proof (induction "length individuals - k" arbitrary: k individuals hit_count infected_count)
  case 0
  then show ?case by simp
next
  case (Suc d)
  then have lt: "k < length individuals" by simp
  define x where "x = advance_epoch cfg (individuals ! k)"
  define individuals' where "individuals' = individuals[k := x]"
  have len: "length individuals' = length individuals" by (simp add: individuals'_def)
  have upt: "[k..<length individuals] = k # [Suc k..<length individuals']"
    using lt by (simp add: upt_conv_Cons len)
  have tk: "take (Suc k) individuals' = take k individuals @ [x]"
    using lt by (simp add: individuals'_def take_Suc_conv_app_nth)
  have dr: "drop (Suc k) individuals' = drop (Suc k) individuals"
    by (simp add: individuals'_def)
  have dk: "drop k individuals = individuals ! k # drop (Suc k) individuals"
    using lt by (simp add: Cons_nth_drop_Suc)
  have IH: "\<And>h i. advance_parallel cfg [Suc k..<length individuals'] individuals' h i =
     (take (Suc k) individuals' @ map (advance_epoch cfg) (drop (Suc k) individuals'),
      h + int (length (filter (\<lambda>p. is_infected p \<or> is_hit p)
                                 (map (advance_epoch cfg) (drop (Suc k) individuals')))),
      i + int (length (filter is_infected
                                 (map (advance_epoch cfg) (drop (Suc k) individuals')))))"
    using Suc.hyps(2) lt by (intro Suc.hyps(1)) (simp_all add: len)
  show ?case
    unfolding upt
    by (simp add: Let_def IH tk dr dk x_def [symmetric] individuals'_def [symmetric])
qed

lemma advance_parallel_all:
  "advance_parallel cfg [0..<length individuals] individuals 0 0 =
     (map (advance_epoch cfg) individuals,
      int (length (filter (\<lambda>p. is_infected p \<or> is_hit p) (map (advance_epoch cfg) individuals))),
      int (length (filter is_infected (map (advance_epoch cfg) individuals))))"
  using advance_parallel_upt [of 0 individuals cfg 0 0] by simp

subsection \<open>Movement\<close>

lemma movement_serial_length:
  "length (fst (movement_serial nlm individuals g)) = length individuals"
  by (induction individuals arbitrary: g) (simp_all add: Let_def split_beta)

lemma movement_parallel_upt:
  "k \<le> length individuals \<Longrightarrow>
   movement_parallel nlm [k..<length individuals] individuals g =
     (take k individuals @ fst (movement_serial nlm (drop k individuals) g),
      snd (movement_serial nlm (drop k individuals) g))"
proof (induction "length individuals - k" arbitrary: k individuals g)
  case 0
  then show ?case by simp
next
  case (Suc d)
  then have lt: "k < length individuals" by simp
  obtain x g' where mv:
    "move (neighborhood_of nlm (get_location (individuals ! k))) (individuals ! k) g = (x, g')"
    by fastforce
  define individuals' where "individuals' = individuals[k := x]"
  have len: "length individuals' = length individuals" by (simp add: individuals'_def)
  have upt: "[k..<length individuals] = k # [Suc k..<length individuals']"
    using lt by (simp add: upt_conv_Cons len)
  have tk: "take (Suc k) individuals' = take k individuals @ [x]"
    using lt by (simp add: individuals'_def take_Suc_conv_app_nth)
  have dr: "drop (Suc k) individuals' = drop (Suc k) individuals"
    by (simp add: individuals'_def)
  have dk: "drop k individuals = individuals ! k # drop (Suc k) individuals"
    using lt by (simp add: Cons_nth_drop_Suc)
  have IH: "\<And>g. movement_parallel nlm [Suc k..<length individuals'] individuals' g =
     (take (Suc k) individuals' @ fst (movement_serial nlm (drop (Suc k) individuals') g),
      snd (movement_serial nlm (drop (Suc k) individuals') g))"
    using Suc.hyps(2) lt by (intro Suc.hyps(1)) (simp_all add: len)
  show ?case
    unfolding upt
    by (simp add: Let_def IH tk dr dk mv individuals'_def [symmetric] split: prod.splits)
qed

lemma movement_parallel_serial:
  "movement_parallel nlm [0..<length individuals] individuals g = movement_serial nlm individuals g"
  using movement_parallel_upt [of 0 individuals nlm g] by simp

subsection \<open>What a phase does to each slot\<close>

lemma movement_serial_pointwise:
  assumes "\<And>p g. Q p (fst (move (neighborhood_of nlm (get_location p)) p g))"
  shows "list_all2 Q individuals (fst (movement_serial nlm individuals g))"
  by (induction individuals arbitrary: g) (simp_all add: Let_def split_beta assms)

lemma scan_parallel_cases:
  assumes "\<not> is_infected current_individual"
    and "scan_parallel cfg index scanned current_individual individuals g = (individuals', g')"
  shows "individuals' = individuals \<or>
         (infectionState current_individual = Susceptible \<and>
          individuals' = individuals[index := infect current_individual])"
  using assms
proof (induction scanned arbitrary: current_individual g)
  case Nil
  then show ?case by simp
next
  case (Cons affecting_index rest)
  show ?case
  proof (cases "is_infected (individuals ! affecting_index) \<and>
                get_location current_individual = get_location (individuals ! affecting_index)")
    case False
    then have "scan_parallel cfg index rest current_individual individuals g = (individuals', g')"
      using Cons.prems(2) by (auto simp: Let_def split: if_splits)
    then show ?thesis using Cons.IH Cons.prems(1) by blast
  next
    case True
    obtain tried g1 where t: "try_infect cfg current_individual g = (tried, g1)"
      by fastforce
    show ?thesis
    proof (cases "is_infected tried")
      case yes: True
      then have "tried \<noteq> current_individual" using Cons.prems(1) by auto
      then have "infectionState current_individual = Susceptible \<and> tried = infect current_individual"
        using try_infect_cases [OF t] by blast
      moreover have "individuals' = individuals[index := tried]"
        using Cons.prems(2) True t yes by (simp add: Let_def)
      ultimately show ?thesis by simp
    next
      case no: False
      then have same: "tried = current_individual"
        using try_infect_cases [OF t] is_infected_infect by metis
      have "scan_parallel cfg index rest tried individuals g1 = (individuals', g')"
        using Cons.prems(2) True t no by (simp add: Let_def)
      then show ?thesis using Cons.IH [of tried g1] no same by blast
    qed
  qed
qed

lemma list_all2_same_update:
  assumes "\<And>p. Q p p" and "Q (xs ! i) y"
  shows "list_all2 Q xs (xs[i := y])"
proof -
  have "list_all2 Q xs xs" by (simp add: list_all2_refl assms(1))
  then have "list_all2 Q (xs[i := xs ! i]) (xs[i := y])"
    using assms(2) by (rule list_all2_update_cong)
  then show ?thesis by simp
qed

lemma infection_parallel_pointwise:
  assumes refl: "\<And>p. Q p p"
    and trans: "\<And>p q r. Q p q \<Longrightarrow> Q q r \<Longrightarrow> Q p r"
    and step: "\<And>p. infectionState p = Susceptible \<Longrightarrow> Q p (infect p)"
  shows "list_all2 Q individuals (fst (infection_parallel cfg n indices individuals g))"
proof (induction indices arbitrary: individuals g)
  case Nil
  then show ?case by (simp add: list_all2_refl refl)
next
  case (Cons index rest)
  show ?case
  proof (cases "is_infected (individuals ! index)")
    case True
    then show ?thesis using Cons.IH by simp
  next
    case False
    obtain individuals' g' where sc:
      "scan_parallel cfg index [0..<nat n] (individuals ! index) individuals g = (individuals', g')"
      by fastforce
    have "list_all2 Q individuals individuals'"
      using scan_parallel_cases [OF False sc] refl step
      by (auto simp: list_all2_refl intro: list_all2_same_update)
    moreover have "list_all2 Q individuals' (fst (infection_parallel cfg n rest individuals' g'))"
      by (rule Cons.IH)
    ultimately have "list_all2 Q individuals (fst (infection_parallel cfg n rest individuals' g'))"
      using trans by (rule list_all2_trans [rotated])
    then show ?thesis using False sc by (simp add: Let_def)
  qed
qed

lemma spread_serial_pointwise:
  assumes refl: "\<And>p. Q p p"
    and trans: "\<And>p q r. Q p q \<Longrightarrow> Q q r \<Longrightarrow> Q p r"
    and step: "\<And>p. infectionState p = Susceptible \<Longrightarrow> Q p (infect p)"
  shows "list_all2 Q individuals (fst (spread_serial cfg i indices individuals g))"
proof (induction indices arbitrary: individuals g)
  case Nil
  then show ?case by (simp add: list_all2_refl refl)
next
  case (Cons j rest)
  show ?case
  proof (cases "i \<noteq> j \<and> get_location (individuals ! i) = get_location (individuals ! j)")
    case False
    then show ?thesis using Cons.IH by auto
  next
    case True
    obtain tried g' where t: "try_infect cfg (individuals ! j) g = (tried, g')"
      by fastforce
    have "Q (individuals ! j) tried"
      using try_infect_cases [OF t] refl step by auto
    then have "list_all2 Q individuals (individuals[j := tried])"
      using refl by (intro list_all2_same_update)
    moreover have "list_all2 Q (individuals[j := tried])
                     (fst (spread_serial cfg i rest (individuals[j := tried]) g'))"
      by (rule Cons.IH)
    ultimately have "list_all2 Q individuals
                     (fst (spread_serial cfg i rest (individuals[j := tried]) g'))"
      using trans by (rule list_all2_trans [rotated])
    then show ?thesis using True t by (simp add: Let_def)
  qed
qed

lemma infection_serial_pointwise:
  assumes refl: "\<And>p. Q p p"
    and trans: "\<And>p q r. Q p q \<Longrightarrow> Q q r \<Longrightarrow> Q p r"
    and step: "\<And>p. infectionState p = Susceptible \<Longrightarrow> Q p (infect p)"
  shows "list_all2 Q individuals (fst (infection_serial cfg indices individuals g))"
proof (induction indices arbitrary: individuals g)
  case Nil
  then show ?case by (simp add: list_all2_refl refl)
next
  case (Cons i rest)
  show ?case
  proof (cases "is_infected (individuals ! i)")
    case False
    then show ?thesis using Cons.IH by simp
  next
    case True
    define r where "r = spread_serial cfg i [0..<length individuals] individuals g"
    have "list_all2 Q individuals (fst r)"
      unfolding r_def using refl trans step by (rule spread_serial_pointwise)
    moreover have "list_all2 Q (fst r) (fst (infection_serial cfg rest (fst r) (snd r)))"
      by (rule Cons.IH)
    ultimately have "list_all2 Q individuals (fst (infection_serial cfg rest (fst r) (snd r)))"
      using trans by (rule list_all2_trans [rotated])
    then show ?thesis using True by (simp add: Let_def split_beta r_def)
  qed
qed

lemma infection_parallel_length:
  "length (fst (infection_parallel cfg n indices individuals g)) = length individuals"
proof -
  have "list_all2 (\<lambda>p q. True) individuals (fst (infection_parallel cfg n indices individuals g))"
    by (rule infection_parallel_pointwise) simp_all
  then show ?thesis by (simp add: list_all2_lengthD)
qed

lemma infection_serial_length:
  "length (fst (infection_serial cfg indices individuals g)) = length individuals"
proof -
  have "list_all2 (\<lambda>p q. True) individuals (fst (infection_serial cfg indices individuals g))"
    by (rule infection_serial_pointwise) simp_all
  then show ?thesis by (simp add: list_all2_lengthD)
qed

lemma epoch_parallel_unfold:
  "epoch_parallel cfg nlm n (individuals, g, stats) =
     (let mv = movement_serial nlm individuals g;
          inf = infection_parallel cfg n [0..<length individuals] (fst mv) (snd mv);
          advanced = map (advance_epoch cfg) (fst inf)
      in (advanced, snd inf,
          stats @ [(int (length (filter (\<lambda>p. is_infected p \<or> is_hit p) advanced)),
                    int (length (filter is_infected advanced)))]))"
proof -
  define mv where "mv = movement_serial nlm individuals g"
  define inf where "inf = infection_parallel cfg n [0..<length individuals] (fst mv) (snd mv)"
  have len: "length (fst inf) = length individuals"
    by (simp add: inf_def mv_def infection_parallel_length movement_serial_length)
  have adv: "advance_parallel cfg [0..<length individuals] (fst inf) 0 0 =
     (map (advance_epoch cfg) (fst inf),
      int (length (filter (\<lambda>p. is_infected p \<or> is_hit p) (map (advance_epoch cfg) (fst inf)))),
      int (length (filter is_infected (map (advance_epoch cfg) (fst inf)))))"
    using advance_parallel_all [of cfg "fst inf"] by (simp add: len)
  show ?thesis
    by (simp add: epoch_parallel_def movement_parallel_serial Let_def split_beta
        mv_def [symmetric] inf_def [symmetric] adv)
qed

lemma epoch_serial_unfold:
  "epoch_serial cfg nlm (individuals, g, stats) =
     (let mv = movement_serial nlm individuals g;
          inf = infection_serial cfg [0..<length individuals] (fst mv) (snd mv);
          advanced = map (advance_epoch cfg) (fst inf)
      in (advanced, snd inf,
          stats @ [(int (length (filter is_hit advanced)),
                    int (length (filter is_infected advanced)))]))"
  by (simp add: epoch_serial_def Let_def split_beta advance_serial_map movement_serial_length)

lemma evolves_refl: "evolves p p"
  by (simp add: evolves_def)

lemma evolves_trans: "evolves p q \<Longrightarrow> evolves q r \<Longrightarrow> evolves p r"
  by (simp add: evolves_def)

lemma evolves_infect: "evolves p (infect p)"
  by (simp add: evolves_def hit_if_infected_def is_hit_def infect_def)

lemma evolves_move: "evolves p (fst (move candidates p g))"
  using move_keeps [of candidates p g "fst (move candidates p g)" "snd (move candidates p g)"]
  by (simp add: evolves_def hit_if_infected_def is_hit_def is_infected_def)

lemma evolves_advance_epoch: "evolves p (advance_epoch cfg p)"
  using advance_epoch_keeps [of cfg p] advance_epoch_infected [of cfg p]
  by (auto simp: evolves_def hit_if_infected_def is_hit_def)

lemma list_all2_evolves_map: "list_all2 evolves xs (map (advance_epoch cfg) xs)"
  by (induction xs) (simp_all add: evolves_advance_epoch)

lemma list_all2_evolves_trans:
  "list_all2 evolves xs ys \<Longrightarrow> list_all2 evolves ys zs \<Longrightarrow> list_all2 evolves xs zs"
  using evolves_trans by (rule list_all2_trans)

lemma epoch_parallel_evolves:
  "list_all2 evolves individuals (fst (epoch_parallel cfg nlm n (individuals, g, stats)))"
proof -
  define mv where "mv = movement_serial nlm individuals g"
  define inf where "inf = infection_parallel cfg n [0..<length individuals] (fst mv) (snd mv)"
  have "list_all2 evolves individuals (fst mv)"
    unfolding mv_def by (rule movement_serial_pointwise) (rule evolves_move)
  moreover have "list_all2 evolves (fst mv) (fst inf)"
    unfolding inf_def
    by (rule infection_parallel_pointwise) (auto intro: evolves_refl evolves_trans evolves_infect)
  moreover have "list_all2 evolves (fst inf) (map (advance_epoch cfg) (fst inf))"
    by (rule list_all2_evolves_map)
  ultimately have "list_all2 evolves individuals (map (advance_epoch cfg) (fst inf))"
    by (blast intro: list_all2_evolves_trans)
  then show ?thesis
    by (simp add: epoch_parallel_unfold Let_def mv_def inf_def)
qed

lemma epoch_serial_evolves:
  "list_all2 evolves individuals (fst (epoch_serial cfg nlm (individuals, g, stats)))"
proof -
  define mv where "mv = movement_serial nlm individuals g"
  define inf where "inf = infection_serial cfg [0..<length individuals] (fst mv) (snd mv)"
  have "list_all2 evolves individuals (fst mv)"
    unfolding mv_def by (rule movement_serial_pointwise) (rule evolves_move)
  moreover have "list_all2 evolves (fst mv) (fst inf)"
    unfolding inf_def
    by (rule infection_serial_pointwise) (auto intro: evolves_refl evolves_trans evolves_infect)
  moreover have "list_all2 evolves (fst inf) (map (advance_epoch cfg) (fst inf))"
    by (rule list_all2_evolves_map)
  ultimately have "list_all2 evolves individuals (map (advance_epoch cfg) (fst inf))"
    by (blast intro: list_all2_evolves_trans)
  then show ?thesis
    by (simp add: epoch_serial_unfold Let_def mv_def inf_def)
qed

lemma evolves_all_hit_if_infected:
  assumes "list_all2 evolves xs ys" and "\<forall>p\<in>set xs. hit_if_infected p"
  shows "\<forall>p\<in>set ys. hit_if_infected p"
  using assms by (induction rule: list_all2_induct) (auto simp: evolves_def)

lemma evolves_hits_mono:
  assumes "list_all2 evolves xs ys"
  shows "hits xs \<le> hits ys"
  using assms unfolding hits_def by (induction rule: list_all2_induct) (auto simp: evolves_def)

lemma infected_le_infected_or_hit:
  "length (filter is_infected xs) \<le> length (filter (\<lambda>p. is_infected p \<or> is_hit p) xs)"
  by (induction xs) auto

lemma infected_le_hit:
  "\<forall>p\<in>set xs. hit_if_infected p \<Longrightarrow> length (filter is_infected xs) \<le> length (filter is_hit xs)"
  by (induction xs) (auto simp: hit_if_infected_def)

lemma infected_or_hit_eq_hit:
  "\<forall>p\<in>set xs. hit_if_infected p \<Longrightarrow>
   filter (\<lambda>p. is_infected p \<or> is_hit p) xs = filter is_hit xs"
  by (rule filter_cong) (auto simp: hit_if_infected_def)

subsection \<open>What an epoch does to each slot\<close>

lemma list_all2_map_self:
  assumes "\<And>p. Q p (f p)"
  shows "list_all2 Q xs (map f xs)"
  by (induction xs) (simp_all add: assms)

lemma epoch_parallel_pointwise:
  assumes refl: "\<And>p. Q p p"
    and trans: "\<And>p q r. Q p q \<Longrightarrow> Q q r \<Longrightarrow> Q p r"
    and mv: "\<And>p g. Q p (fst (move (neighborhood_of nlm (get_location p)) p g))"
    and inf: "\<And>p. infectionState p = Susceptible \<Longrightarrow> Q p (infect p)"
    and adv: "\<And>p. Q p (advance_epoch cfg p)"
  shows "list_all2 Q individuals (fst (epoch_parallel cfg nlm n (individuals, g, stats)))"
proof -
  define mv where "mv = movement_serial nlm individuals g"
  define inf where "inf = infection_parallel cfg n [0..<length individuals] (fst mv) (snd mv)"
  have "list_all2 Q individuals (fst mv)"
    unfolding mv_def using assms(3) by (rule movement_serial_pointwise)
  moreover have "list_all2 Q (fst mv) (fst inf)"
    unfolding inf_def using refl trans assms(4) by (rule infection_parallel_pointwise)
  moreover have "list_all2 Q (fst inf) (map (advance_epoch cfg) (fst inf))"
    using adv by (rule list_all2_map_self)
  ultimately have "list_all2 Q individuals (map (advance_epoch cfg) (fst inf))"
    using trans by (blast intro: list_all2_trans [of Q Q Q])
  then show ?thesis
    by (simp add: epoch_parallel_unfold Let_def mv_def inf_def)
qed

lemma epoch_serial_pointwise:
  assumes refl: "\<And>p. Q p p"
    and trans: "\<And>p q r. Q p q \<Longrightarrow> Q q r \<Longrightarrow> Q p r"
    and mv: "\<And>p g. Q p (fst (move (neighborhood_of nlm (get_location p)) p g))"
    and inf: "\<And>p. infectionState p = Susceptible \<Longrightarrow> Q p (infect p)"
    and adv: "\<And>p. Q p (advance_epoch cfg p)"
  shows "list_all2 Q individuals (fst (epoch_serial cfg nlm (individuals, g, stats)))"
proof -
  define mv where "mv = movement_serial nlm individuals g"
  define inf where "inf = infection_serial cfg [0..<length individuals] (fst mv) (snd mv)"
  have "list_all2 Q individuals (fst mv)"
    unfolding mv_def using assms(3) by (rule movement_serial_pointwise)
  moreover have "list_all2 Q (fst mv) (fst inf)"
    unfolding inf_def using refl trans assms(4) by (rule infection_serial_pointwise)
  moreover have "list_all2 Q (fst inf) (map (advance_epoch cfg) (fst inf))"
    using adv by (rule list_all2_map_self)
  ultimately have "list_all2 Q individuals (map (advance_epoch cfg) (fst inf))"
    using trans by (blast intro: list_all2_trans [of Q Q Q])
  then show ?thesis
    by (simp add: epoch_serial_unfold Let_def mv_def inf_def)
qed

subsection \<open>Invariants of a run\<close>

lemma epoch_parallel_counts:
  assumes "\<forall>e\<in>set (stats_of st). snd e \<le> fst e"
  shows "\<forall>e\<in>set (stats_of (epoch_parallel cfg nlm n st)). snd e \<le> fst e"
proof -
  obtain individuals g stats where st: "st = (individuals, g, stats)" by (cases st) auto
  define mv where "mv = movement_serial nlm individuals g"
  define inf where "inf = infection_parallel cfg n [0..<length individuals] (fst mv) (snd mv)"
  define advanced where "advanced = map (advance_epoch cfg) (fst inf)"
  have res: "epoch_parallel cfg nlm n (individuals, g, stats) = (advanced, snd inf,
          stats @ [(int (length (filter (\<lambda>p. is_infected p \<or> is_hit p) advanced)),
                    int (length (filter is_infected advanced)))])"
    by (simp add: epoch_parallel_unfold Let_def mv_def inf_def advanced_def)
  have "length (filter is_infected advanced) \<le>
        length (filter (\<lambda>p. is_infected p \<or> is_hit p) advanced)"
    by (rule infected_le_infected_or_hit)
  then show ?thesis using assms by (auto simp: st res stats_of_def)
qed

lemma epoch_serial_counts:
  assumes "(\<forall>p\<in>set (fst st). hit_if_infected p) \<and> (\<forall>e\<in>set (stats_of st). snd e \<le> fst e)"
  shows "(\<forall>p\<in>set (fst (epoch_serial cfg nlm st)). hit_if_infected p) \<and>
         (\<forall>e\<in>set (stats_of (epoch_serial cfg nlm st)). snd e \<le> fst e)"
proof -
  obtain individuals g stats where st: "st = (individuals, g, stats)" by (cases st) auto
  define mv where "mv = movement_serial nlm individuals g"
  define inf where "inf = infection_serial cfg [0..<length individuals] (fst mv) (snd mv)"
  define advanced where "advanced = map (advance_epoch cfg) (fst inf)"
  have res: "epoch_serial cfg nlm (individuals, g, stats) = (advanced, snd inf,
          stats @ [(int (length (filter is_hit advanced)),
                    int (length (filter is_infected advanced)))])"
    by (simp add: epoch_serial_unfold Let_def mv_def inf_def advanced_def)
  have "list_all2 evolves individuals advanced"
    using epoch_serial_evolves [of individuals cfg nlm g stats] by (simp add: res)
  moreover have "\<forall>p\<in>set individuals. hit_if_infected p"
    using assms by (simp add: st)
  ultimately have wf: "\<forall>p\<in>set advanced. hit_if_infected p"
    by (rule evolves_all_hit_if_infected)
  then have "length (filter is_infected advanced) \<le> length (filter is_hit advanced)"
    by (rule infected_le_hit)
  then show ?thesis using wf assms by (auto simp: st res stats_of_def)
qed

lemma sorted_snoc_fst:
  assumes "sorted (map fst stats)" and "\<forall>e\<in>set stats. fst e \<le> (h :: int)"
  shows "sorted (map fst (stats @ [(h, i)]))"
  using assms by (simp add: sorted_append)

lemma epoch_serial_monotone:
  assumes "monotone_hits st"
  shows "monotone_hits (epoch_serial cfg nlm st)"
proof -
  obtain individuals g stats where st: "st = (individuals, g, stats)" by (cases st) auto
  define mv where "mv = movement_serial nlm individuals g"
  define inf where "inf = infection_serial cfg [0..<length individuals] (fst mv) (snd mv)"
  define advanced where "advanced = map (advance_epoch cfg) (fst inf)"
  have res: "epoch_serial cfg nlm (individuals, g, stats) = (advanced, snd inf,
          stats @ [(hits advanced, int (length (filter is_infected advanced)))])"
    by (simp add: epoch_serial_unfold Let_def mv_def inf_def advanced_def hits_def)
  have "list_all2 evolves individuals advanced"
    using epoch_serial_evolves [of individuals cfg nlm g stats] by (simp add: res)
  then have mono: "hits individuals \<le> hits advanced" by (rule evolves_hits_mono)
  have old: "\<forall>e\<in>set stats. fst e \<le> hits advanced"
    using assms mono by (auto simp: monotone_hits_def st stats_of_def)
  moreover have "sorted (map fst stats)"
    using assms by (simp add: monotone_hits_def st stats_of_def)
  ultimately have "sorted (map fst (stats @ [(hits advanced,
                      int (length (filter is_infected advanced)))]))"
    by (intro sorted_snoc_fst)
  then show ?thesis using old by (auto simp: monotone_hits_def st res stats_of_def)
qed

lemma epoch_parallel_monotone:
  assumes "(\<forall>p\<in>set (fst st). hit_if_infected p) \<and> monotone_hits st"
  shows "(\<forall>p\<in>set (fst (epoch_parallel cfg nlm n st)). hit_if_infected p) \<and>
         monotone_hits (epoch_parallel cfg nlm n st)"
proof -
  obtain individuals g stats where st: "st = (individuals, g, stats)" by (cases st) auto
  define mv where "mv = movement_serial nlm individuals g"
  define inf where "inf = infection_parallel cfg n [0..<length individuals] (fst mv) (snd mv)"
  define advanced where "advanced = map (advance_epoch cfg) (fst inf)"
  have res0: "epoch_parallel cfg nlm n (individuals, g, stats) = (advanced, snd inf,
          stats @ [(int (length (filter (\<lambda>p. is_infected p \<or> is_hit p) advanced)),
                    int (length (filter is_infected advanced)))])"
    by (simp add: epoch_parallel_unfold Let_def mv_def inf_def advanced_def)
  have ev: "list_all2 evolves individuals advanced"
    using epoch_parallel_evolves [of individuals cfg nlm n g stats] by (simp add: res0)
  note ev
  moreover have "\<forall>p\<in>set individuals. hit_if_infected p"
    using assms by (simp add: st)
  ultimately have wf: "\<forall>p\<in>set advanced. hit_if_infected p"
    by (rule evolves_all_hit_if_infected)
  have res: "epoch_parallel cfg nlm n (individuals, g, stats) = (advanced, snd inf,
          stats @ [(hits advanced, int (length (filter is_infected advanced)))])"
    unfolding res0 hits_def infected_or_hit_eq_hit [OF wf] ..
  have mono: "hits individuals \<le> hits advanced" using ev by (rule evolves_hits_mono)
  have old: "\<forall>e\<in>set stats. fst e \<le> hits advanced"
    using assms mono by (auto simp: monotone_hits_def st stats_of_def)
  moreover have "sorted (map fst stats)"
    using assms by (simp add: monotone_hits_def st stats_of_def)
  ultimately have "sorted (map fst (stats @ [(hits advanced,
                      int (length (filter is_infected advanced)))]))"
    by (intro sorted_snoc_fst)
  then show ?thesis using old wf by (auto simp: monotone_hits_def st res stats_of_def)
qed

lemma sorted_fst_consecutive:
  assumes "sorted (map fst (stats :: (int \<times> int) list))" and "Suc k < length stats"
  shows "fst (stats ! k) \<le> fst (stats ! Suc k)"
proof -
  have "map fst stats ! k \<le> map fst stats ! Suc k"
    using assms by (intro sorted_nth_mono) simp_all
  then show ?thesis using assms(2) by simp
qed

lemma simulate_parallel_prior:
  assumes "total_epochs \<noteq> 255" and "unat total_epochs + 1 < fuel"
  shows "simulate_parallel fuel cfg nlm n total_epochs (individuals, g, prior) =
         Some (prepend prior
           ((epoch_parallel cfg nlm n ^^ (unat total_epochs + 1)) (individuals, g, [])))"
proof -
  have "(individuals, g, prior) = prepend prior (individuals, g, [])"
    by (simp add: prepend_def)
  then show ?thesis
    using assms epoch_parallel_prepend
    by (simp add: simulate_parallel_funpow funpow_prepend)
qed

section \<open>Claims about the statistics\<close>

text \<open>
  Claim C3. Every entry \<open>(hit_count, infected_count)\<close> that a run appends to the statistics
  has \<open>infected_count \<le> hit_count\<close>. \<^verbatim>\<open>simulate_parallel\<close> counts an infected individual in
  both sums, so its entries are in order whatever the population holds;
  \<^verbatim>\<open>simulate_serial\<close> counts the two flags apart, and its entries are in order for a
  population that satisfies the invariant of the class (an infected individual has been
  hit), as every population built by \<^verbatim>\<open>reset_input\<close> does (lemma
  \<open>reset_input_invariant\<close>). The run of \<^verbatim>\<open>simulate_parallel\<close> returns for
  \<open>total_epochs \<noteq> 255\<close>; its new entries are those after the prior contents of the
  vector. The scan stays in range for \<open>individual_count \<le> size\<close>, the chunk of the OpenMP
  loops is positive, and \<open>total_epochs + 1\<close> does not overflow in the serial loop.
\<close>

theorem infected_count_le_hit_count:
  assumes wf: "\<forall>p\<in>set individuals. is_infected p \<longrightarrow> is_hit p"
    and "0 < chunk individuals" and "individual_count \<le> int (length individuals)"
    and "serial_epochs < 2147483647"
    and returns: "total_epochs \<noteq> 255" "unat total_epochs + 1 < fuel"
  shows "(\<forall>e\<in>set (stats_of (simulate_serial cfg nlm serial_epochs individuals g)).
            snd e \<le> fst e) \<and>
         (\<exists>st'. simulate_parallel fuel cfg nlm individual_count total_epochs
                   (individuals, g, prior) = Some st' \<and>
                 (\<forall>e\<in>set (drop (length prior) (stats_of st')). snd e \<le> fst e))"
proof
  let ?P = "\<lambda>st. (\<forall>p\<in>set (fst st). hit_if_infected p) \<and> (\<forall>e\<in>set (stats_of st). snd e \<le> fst e)"
  have "?P (individuals, g, [])"
    using wf by (simp add: hit_if_infected_def stats_of_def)
  then have "?P ((epoch_serial cfg nlm ^^ nat (serial_epochs + 1)) (individuals, g, []))"
    by (rule funpow_invariant) (rule epoch_serial_counts)
  then show "\<forall>e\<in>set (stats_of (simulate_serial cfg nlm serial_epochs individuals g)).
            snd e \<le> fst e"
    by (simp add: simulate_serial_funpow)
next
  let ?Q = "\<lambda>st. \<forall>e\<in>set (stats_of st). snd e \<le> fst e"
  define st0 where
    "st0 = (epoch_parallel cfg nlm individual_count ^^ (unat total_epochs + 1)) (individuals, g, [])"
  have "?Q (individuals, g, [])" by (simp add: stats_of_def)
  then have "?Q st0"
    unfolding st0_def by (rule funpow_invariant) (rule epoch_parallel_counts)
  moreover have "simulate_parallel fuel cfg nlm individual_count total_epochs
                   (individuals, g, prior) = Some (prepend prior st0)"
    unfolding st0_def using returns by (rule simulate_parallel_prior)
  ultimately show "\<exists>st'. simulate_parallel fuel cfg nlm individual_count total_epochs
                   (individuals, g, prior) = Some st' \<and>
                 (\<forall>e\<in>set (drop (length prior) (stats_of st')). snd e \<le> fst e)"
    by (simp add: stats_of_prepend)
qed

theorem infected_count_le_hit_count_witness:
  "list_all (\<lambda>p. is_infected p \<longrightarrow> is_hit p) quartet \<and> 0 < chunk quartet \<and>
   4 \<le> int (length quartet) \<and>
   (2::int) < 2147483647 \<and> (2 :: 8 word) \<noteq> 255 \<and> unat (2 :: 8 word) + 1 < 4 \<and>
   stats_of (simulate_serial cfg2 one_location 2 quartet (Rng (\<lambda>k. k) 0)) \<noteq> [] \<and>
   snd (hd (stats_of (simulate_serial cfg2 one_location 2 quartet (Rng (\<lambda>k. k) 0))))
     \<le> fst (hd (stats_of (simulate_serial cfg2 one_location 2 quartet (Rng (\<lambda>k. k) 0)))) \<and>
   (\<exists>st'. simulate_parallel 4 cfg2 one_location 4 2 (quartet, Rng (\<lambda>k. k) 0, [(0, 5)]) = Some st' \<and>
          (\<forall>e\<in>set (drop (length [(0 :: int, 5 :: int)]) (stats_of st')). snd e \<le> fst e))"
proof -
  have h1: "\<forall>p\<in>set quartet. is_infected p \<longrightarrow> is_hit p"
    by (simp add: quartet_def seeded_def is_infected_def is_hit_def)
  have h2: "0 < chunk quartet"
    by (simp add: chunk_def DEFAULT_NUMBER_OF_THREADS_def quartet_def)
  have h3: "4 \<le> int (length quartet)" by (simp add: quartet_def)
  have h4: "(2::int) < 2147483647" by simp
  have h5: "(2 :: 8 word) \<noteq> 255" by simp
  have h6: "unat (2 :: 8 word) + 1 < 4" by simp
  have h7: "stats_of (simulate_serial cfg2 one_location 2 quartet (Rng (\<lambda>k. k) 0)) \<noteq> []"
    by code_simp
  then have h8: "hd (stats_of (simulate_serial cfg2 one_location 2 quartet (Rng (\<lambda>k. k) 0)))
      \<in> set (stats_of (simulate_serial cfg2 one_location 2 quartet (Rng (\<lambda>k. k) 0)))"
    by (rule hd_in_set)
  have h1': "list_all (\<lambda>p. is_infected p \<longrightarrow> is_hit p) quartet"
    using h1 by (simp add: list_all_iff)
  show ?thesis
    using h1' h2 h3 h4 h5 h6 h7 h8
      infected_count_le_hit_count [OF h1 h2 h3 h4 h5 h6,
        where cfg = cfg2 and nlm = one_location and g = "Rng (\<lambda>k. k) 0" and prior = "[(0, 5)]"]
    by blast
qed

text \<open>
  Claim C4. Within one run, the hit count of an entry is at least the hit count of the
  entry before it. The hypotheses are those of C3: the population satisfies the invariant
  of the class (needed by \<^verbatim>\<open>simulate_parallel\<close>, whose hit count includes the infected), the
  scan stays in range, the chunk is positive, and the parallel run returns.
\<close>

theorem hit_count_never_decreases:
  assumes wf: "\<forall>p\<in>set individuals. is_infected p \<longrightarrow> is_hit p"
    and "0 < chunk individuals" and "individual_count \<le> int (length individuals)"
    and "serial_epochs < 2147483647"
    and returns: "total_epochs \<noteq> 255" "unat total_epochs + 1 < fuel"
  shows "(\<forall>k. Suc k < length (stats_of (simulate_serial cfg nlm serial_epochs individuals g)) \<longrightarrow>
            fst (stats_of (simulate_serial cfg nlm serial_epochs individuals g) ! k)
            \<le> fst (stats_of (simulate_serial cfg nlm serial_epochs individuals g) ! Suc k)) \<and>
         (\<exists>st' new. simulate_parallel fuel cfg nlm individual_count total_epochs
                   (individuals, g, prior) = Some st' \<and> stats_of st' = prior @ new \<and>
                 (\<forall>k. Suc k < length new \<longrightarrow> fst (new ! k) \<le> fst (new ! Suc k)))"
proof
  have "monotone_hits (individuals, g, [])"
    by (simp add: monotone_hits_def stats_of_def)
  then have "monotone_hits ((epoch_serial cfg nlm ^^ nat (serial_epochs + 1)) (individuals, g, []))"
    by (rule funpow_invariant) (rule epoch_serial_monotone)
  then have "sorted (map fst (stats_of (simulate_serial cfg nlm serial_epochs individuals g)))"
    by (simp add: simulate_serial_funpow monotone_hits_def)
  then show "\<forall>k. Suc k < length (stats_of (simulate_serial cfg nlm serial_epochs individuals g)) \<longrightarrow>
            fst (stats_of (simulate_serial cfg nlm serial_epochs individuals g) ! k)
            \<le> fst (stats_of (simulate_serial cfg nlm serial_epochs individuals g) ! Suc k)"
    by (blast intro: sorted_fst_consecutive)
next
  let ?P = "\<lambda>st. (\<forall>p\<in>set (fst st). hit_if_infected p) \<and> monotone_hits st"
  define st0 where
    "st0 = (epoch_parallel cfg nlm individual_count ^^ (unat total_epochs + 1)) (individuals, g, [])"
  have "?P (individuals, g, [])"
    using wf by (simp add: monotone_hits_def stats_of_def hit_if_infected_def)
  then have "?P st0"
    unfolding st0_def by (rule funpow_invariant) (rule epoch_parallel_monotone)
  then have "sorted (map fst (stats_of st0))" by (simp add: monotone_hits_def)
  then have "\<forall>k. Suc k < length (stats_of st0) \<longrightarrow>
               fst (stats_of st0 ! k) \<le> fst (stats_of st0 ! Suc k)"
    by (blast intro: sorted_fst_consecutive)
  moreover have "simulate_parallel fuel cfg nlm individual_count total_epochs
                   (individuals, g, prior) = Some (prepend prior st0)"
    unfolding st0_def using returns by (rule simulate_parallel_prior)
  moreover have "stats_of (prepend prior st0) = prior @ stats_of st0"
    by (rule stats_of_prepend)
  ultimately show "\<exists>st' new. simulate_parallel fuel cfg nlm individual_count total_epochs
                   (individuals, g, prior) = Some st' \<and> stats_of st' = prior @ new \<and>
                 (\<forall>k. Suc k < length new \<longrightarrow> fst (new ! k) \<le> fst (new ! Suc k))"
    by blast
qed

theorem hit_count_never_decreases_witness:
  "list_all (\<lambda>p. is_infected p \<longrightarrow> is_hit p) quartet \<and> 0 < chunk quartet \<and>
   4 \<le> int (length quartet) \<and>
   (2::int) < 2147483647 \<and> (2 :: 8 word) \<noteq> 255 \<and> unat (2 :: 8 word) + 1 < 4 \<and>
   Suc 0 < length (stats_of (simulate_serial cfg2 one_location 2 quartet (Rng (\<lambda>k. k) 0))) \<and>
   fst (stats_of (simulate_serial cfg2 one_location 2 quartet (Rng (\<lambda>k. k) 0)) ! 0)
     \<le> fst (stats_of (simulate_serial cfg2 one_location 2 quartet (Rng (\<lambda>k. k) 0)) ! Suc 0) \<and>
   (\<exists>st' new. simulate_parallel 4 cfg2 one_location 4 2 (quartet, Rng (\<lambda>k. k) 0, [(9, 9)]) = Some st' \<and>
      stats_of st' = [(9, 9)] @ new \<and>
      (\<forall>k. Suc k < length new \<longrightarrow> fst (new ! k) \<le> fst (new ! Suc k)))"
proof -
  have h1: "\<forall>p\<in>set quartet. is_infected p \<longrightarrow> is_hit p"
    by (simp add: quartet_def seeded_def is_infected_def is_hit_def)
  have h2: "0 < chunk quartet"
    by (simp add: chunk_def DEFAULT_NUMBER_OF_THREADS_def quartet_def)
  have h3: "4 \<le> int (length quartet)" by (simp add: quartet_def)
  have h4: "(2::int) < 2147483647" by simp
  have h5: "(2 :: 8 word) \<noteq> 255" by simp
  have h6: "unat (2 :: 8 word) + 1 < 4" by simp
  have h7: "Suc 0 < length (stats_of (simulate_serial cfg2 one_location 2 quartet (Rng (\<lambda>k. k) 0)))"
    by code_simp
  have h1': "list_all (\<lambda>p. is_infected p \<longrightarrow> is_hit p) quartet"
    using h1 by (simp add: list_all_iff)
  show ?thesis
    using h1' h2 h3 h4 h5 h6 h7
      hit_count_never_decreases [OF h1 h2 h3 h4 h5 h6,
        where cfg = cfg2 and nlm = one_location and g = "Rng (\<lambda>k. k) 0" and prior = "[(9, 9)]"]
    by blast
qed

section \<open>Claims about the infection phase\<close>

text \<open>
  In the infection phase of \<^verbatim>\<open>simulate_parallel\<close> a slot either keeps its value or holds
  the infected copy of a Susceptible individual.
\<close>

lemma infection_parallel_slots:
  "list_all2 (\<lambda>p p'. p' = p \<or> (infectionState p = Susceptible \<and> p' = infect p)) individuals
     (fst (infection_parallel cfg n indices individuals g))"
proof (rule infection_parallel_pointwise)
  fix p q r :: Individual
  assume "q = p \<or> infectionState p = Susceptible \<and> q = infect p"
    and "r = q \<or> infectionState q = Susceptible \<and> r = infect q"
  then show "r = p \<or> infectionState p = Susceptible \<and> r = infect p"
    by (auto simp: infect_def)
qed simp_all

text \<open>
  Claim C9. The infection phase of \<^verbatim>\<open>simulate_parallel\<close> writes a slot only when the
  individual in it becomes Infected in that phase: the slot of an individual that is
  Infected or Recovered when the phase starts, and the slot of an individual that is not
  Infected when the phase ends (no attempt on it succeeded), hold after the phase the
  value they held before it, in every field. The population keeps its size.
\<close>

theorem infection_parallel_frame:
  assumes "0 < chunk individuals" and "individual_count \<le> int (length individuals)"
    and i: "i < length individuals"
    and unchanged: "infectionState (individuals ! i) \<noteq> Susceptible \<or>
         \<not> is_infected (fst (infection_parallel cfg individual_count [0..<length individuals]
                               individuals g) ! i)"
  shows "length (fst (infection_parallel cfg individual_count [0..<length individuals]
                        individuals g)) = length individuals \<and>
         fst (infection_parallel cfg individual_count [0..<length individuals] individuals g) ! i
           = individuals ! i"
proof -
  let ?after = "fst (infection_parallel cfg individual_count [0..<length individuals] individuals g)"
  have all: "list_all2 (\<lambda>p p'. p' = p \<or> (infectionState p = Susceptible \<and> p' = infect p))
               individuals ?after"
    by (rule infection_parallel_slots)
  then have "?after ! i = individuals ! i \<or>
             (infectionState (individuals ! i) = Susceptible \<and> ?after ! i = infect (individuals ! i))"
    using i by (simp add: list_all2_conv_all_nth)
  then have "?after ! i = individuals ! i"
    using unchanged is_infected_infect by metis
  moreover have "length ?after = length individuals"
    using list_all2_lengthD [OF all] by simp
  ultimately show ?thesis by simp
qed


theorem infection_parallel_frame_witness:
  "0 < chunk mixed \<and> 4 \<le> int (length mixed) \<and>
   2 < length mixed \<and> infectionState (mixed ! 2) \<noteq> Susceptible \<and>
   1 < length mixed \<and>
   \<not> is_infected (fst (infection_parallel cfg2 4 [0..<length mixed] mixed (Rng (\<lambda>k. k) 0)) ! 1) \<and>
   fst (infection_parallel cfg2 4 [0..<length mixed] mixed (Rng (\<lambda>k. k) 0)) ! 2 = mixed ! 2 \<and>
   fst (infection_parallel cfg2 4 [0..<length mixed] mixed (Rng (\<lambda>k. k) 0)) ! 1 = mixed ! 1"
proof -
  have h0: "0 < chunk mixed"
    by (simp add: chunk_def DEFAULT_NUMBER_OF_THREADS_def mixed_def)
  have h1: "4 \<le> int (length mixed)" by (simp add: mixed_def)
  have h2: "2 < length mixed" by (simp add: mixed_def)
  have h3: "infectionState (mixed ! 2) \<noteq> Susceptible" by (simp add: mixed_def seeded_def)
  have h4: "1 < length mixed" by (simp add: mixed_def)
  have h5: "\<not> is_infected (fst (infection_parallel cfg2 4 [0..<length mixed] mixed (Rng (\<lambda>k. k) 0)) ! 1)"
    by code_simp
  show ?thesis
    using h0 h1 h2 h3 h4 h5
      infection_parallel_frame [OF h0 h1 h2 disjI1, OF h3, of cfg2 "Rng (\<lambda>k. k) 0"]
      infection_parallel_frame [OF h0 h1 h4 disjI2, OF h5]
    by blast
qed

section \<open>Claims about movement\<close>

lemma move_location:
  "candidates \<noteq> [] \<Longrightarrow> location (fst (move candidates p g)) \<in> set candidates"
  by (simp add: move_def next_draw_def Let_def)

lemma move_location_empty:
  "location (fst (move [] p g)) = location p"
  by (simp add: move_def)

lemma lookup_map_vertex:
  assumes "get_node_neighborhood_lookup_map graph = Inr nlm" and "is_vertex graph v"
  shows "neighborhood_of nlm v = v # adjacent graph v"
  using assms
  by (auto simp: get_node_neighborhood_lookup_map_def neighborhood_of_def is_vertex_def
           split: if_splits)

lemma adjacent_vertices:
  assumes "edges_in_graph graph" and "w \<in> set (adjacent graph v)"
  shows "is_vertex graph w"
  using assms by (auto simp: edges_in_graph_def adjacent_def)

lemma neighborhood_vertices:
  assumes "get_node_neighborhood_lookup_map graph = Inr nlm" and "edges_in_graph graph"
    and "is_vertex graph v" and "w \<in> set (neighborhood_of nlm v)"
  shows "is_vertex graph w"
  using assms lookup_map_vertex [OF assms(1,3)] adjacent_vertices [OF assms(2)] by auto

lemma move_within_neighborhood:
  assumes "get_node_neighborhood_lookup_map graph = Inr nlm" and "is_vertex graph (location p)"
  shows "within_neighborhood nlm p (fst (move (neighborhood_of nlm (get_location p)) p g))"
  using lookup_map_vertex [OF assms] move_location [of "neighborhood_of nlm (location p)" p g]
  by (simp add: within_neighborhood_def get_location_def)

lemma movement_serial_within:
  assumes "get_node_neighborhood_lookup_map graph = Inr nlm"
  shows "list_all2 (\<lambda>before after. is_vertex graph (location before) \<longrightarrow>
            within_neighborhood nlm before after)
          individuals (fst (movement_serial nlm individuals g))"
  by (rule movement_serial_pointwise) (simp add: move_within_neighborhood [OF assms])

lemma list_all2_mp:
  assumes "list_all2 (\<lambda>x y. P x \<longrightarrow> Q x y) xs ys" and "\<forall>x\<in>set xs. P x"
  shows "list_all2 Q xs ys"
  using assms by (induction rule: list_all2_induct) simp_all

lemma list_all2_ball:
  assumes "list_all2 (\<lambda>x y. P x \<longrightarrow> R y) xs ys" and "\<forall>x\<in>set xs. P x"
  shows "\<forall>y\<in>set ys. R y"
  using assms by (induction rule: list_all2_induct) simp_all

lemma keeps_vertex_move:
  assumes "get_node_neighborhood_lookup_map graph = Inr nlm" and "edges_in_graph graph"
  shows "is_vertex graph (location p) \<longrightarrow>
         is_vertex graph (location (fst (move (neighborhood_of nlm (get_location p)) p g)))"
proof
  assume v: "is_vertex graph (location p)"
  have "within_neighborhood nlm p (fst (move (neighborhood_of nlm (get_location p)) p g))"
    using assms(1) v by (rule move_within_neighborhood)
  then show "is_vertex graph (location (fst (move (neighborhood_of nlm (get_location p)) p g)))"
    using neighborhood_vertices [OF assms v] by (simp add: within_neighborhood_def)
qed

lemma epoch_serial_vertices:
  assumes "get_node_neighborhood_lookup_map graph = Inr nlm" and "edges_in_graph graph"
    and "\<forall>p\<in>set (population_of st). is_vertex graph (location p)"
  shows "\<forall>p\<in>set (population_of (epoch_serial cfg nlm st)). is_vertex graph (location p)"
proof -
  obtain individuals g stats where st: "st = (individuals, g, stats)" by (cases st) auto
  have "list_all2 (\<lambda>p q. is_vertex graph (location p) \<longrightarrow> is_vertex graph (location q))
          individuals (fst (epoch_serial cfg nlm (individuals, g, stats)))"
    by (rule epoch_serial_pointwise)
       (simp_all add: keeps_vertex_move [OF assms(1,2)] location_infect advance_epoch_keeps)
  moreover have "\<forall>p\<in>set individuals. is_vertex graph (location p)"
    using assms(3) by (simp add: st population_of_def)
  ultimately have "\<forall>q\<in>set (fst (epoch_serial cfg nlm (individuals, g, stats))).
                     is_vertex graph (location q)"
    by (rule list_all2_ball)
  then show ?thesis by (simp add: st population_of_def)
qed

lemma epoch_parallel_vertices:
  assumes "get_node_neighborhood_lookup_map graph = Inr nlm" and "edges_in_graph graph"
    and "\<forall>p\<in>set (population_of st). is_vertex graph (location p)"
  shows "\<forall>p\<in>set (population_of (epoch_parallel cfg nlm n st)). is_vertex graph (location p)"
proof -
  obtain individuals g stats where st: "st = (individuals, g, stats)" by (cases st) auto
  have "list_all2 (\<lambda>p q. is_vertex graph (location p) \<longrightarrow> is_vertex graph (location q))
          individuals (fst (epoch_parallel cfg nlm n (individuals, g, stats)))"
    by (rule epoch_parallel_pointwise)
       (simp_all add: keeps_vertex_move [OF assms(1,2)] location_infect advance_epoch_keeps)
  moreover have "\<forall>p\<in>set individuals. is_vertex graph (location p)"
    using assms(3) by (simp add: st population_of_def)
  ultimately have "\<forall>q\<in>set (fst (epoch_parallel cfg nlm n (individuals, g, stats))).
                     is_vertex graph (location q)"
    by (rule list_all2_ball)
  then show ?thesis by (simp add: st population_of_def)
qed

text \<open>
  Claim C7. In the movement phase of every epoch, the location of an individual after the
  move is in the neighbourhood of its location before the move, and that neighbourhood
  holds the location itself. The lookup map is the one section 4.1 prescribes for the
  graph, the edges of the graph join vertices of the graph, and the individuals start at
  vertices of the graph; \<open>k\<close> is the number of epochs already run. For the parallel loop
  the chunk is positive and the scan stays in range.
\<close>

theorem movement_within_neighborhood:
  assumes "get_node_neighborhood_lookup_map graph = Inr nlm" and "edges_in_graph graph"
    and "\<forall>p\<in>set individuals. is_vertex graph (location p)"
    and "before_serial = (epoch_serial cfg nlm ^^ k) (individuals, g, [])"
    and "before_parallel = (epoch_parallel cfg nlm n ^^ k) (individuals, g, prior)"
    and "0 < chunk individuals" and "n \<le> int (length individuals)"
  shows "list_all2 (within_neighborhood nlm) (population_of before_serial)
           (fst (movement_serial nlm (population_of before_serial) (generator_of before_serial))) \<and>
         list_all2 (within_neighborhood nlm) (population_of before_parallel)
           (fst (movement_parallel nlm [0..<length (population_of before_parallel)]
                   (population_of before_parallel) (generator_of before_parallel)))"
proof
  have "\<forall>p\<in>set (population_of (individuals, g, [])). is_vertex graph (location p)"
    using assms(3) by (simp add: population_of_def)
  then have "\<forall>p\<in>set (population_of before_serial). is_vertex graph (location p)"
    unfolding assms(4)
    by (rule funpow_invariant) (rule epoch_serial_vertices [OF assms(1,2)])
  with movement_serial_within [OF assms(1)]
  show "list_all2 (within_neighborhood nlm) (population_of before_serial)
           (fst (movement_serial nlm (population_of before_serial) (generator_of before_serial)))"
    by (rule list_all2_mp)
next
  have "\<forall>p\<in>set (population_of (individuals, g, prior)). is_vertex graph (location p)"
    using assms(3) by (simp add: population_of_def)
  then have "\<forall>p\<in>set (population_of before_parallel). is_vertex graph (location p)"
    unfolding assms(5)
    by (rule funpow_invariant) (rule epoch_parallel_vertices [OF assms(1,2)])
  with movement_serial_within [OF assms(1)]
  have "list_all2 (within_neighborhood nlm) (population_of before_parallel)
           (fst (movement_serial nlm (population_of before_parallel) (generator_of before_parallel)))"
    by (rule list_all2_mp)
  then show "list_all2 (within_neighborhood nlm) (population_of before_parallel)
           (fst (movement_parallel nlm [0..<length (population_of before_parallel)]
                   (population_of before_parallel) (generator_of before_parallel)))"
    by (simp add: movement_parallel_serial)
qed

theorem movement_within_neighborhood_witness:
  "get_node_neighborhood_lookup_map two_locations = Inr two_locations_map \<and>
   edges_in_graph two_locations \<and>
   list_all (\<lambda>p. is_vertex two_locations (location p)) mixed \<and>
   0 < chunk mixed \<and> 4 \<le> int (length mixed) \<and>
   list_all2 (within_neighborhood two_locations_map)
     (population_of ((epoch_serial cfg2 two_locations_map ^^ 1) (mixed, Rng (\<lambda>k. k) 0, [])))
     (fst (movement_serial two_locations_map
        (population_of ((epoch_serial cfg2 two_locations_map ^^ 1) (mixed, Rng (\<lambda>k. k) 0, [])))
        (generator_of ((epoch_serial cfg2 two_locations_map ^^ 1) (mixed, Rng (\<lambda>k. k) 0, []))))) \<and>
   list_all2 (within_neighborhood two_locations_map)
     (population_of ((epoch_parallel cfg2 two_locations_map 4 ^^ 1) (mixed, Rng (\<lambda>k. k) 0, [])))
     (fst (movement_parallel two_locations_map
        [0..<length (population_of
           ((epoch_parallel cfg2 two_locations_map 4 ^^ 1) (mixed, Rng (\<lambda>k. k) 0, [])))]
        (population_of ((epoch_parallel cfg2 two_locations_map 4 ^^ 1) (mixed, Rng (\<lambda>k. k) 0, [])))
        (generator_of ((epoch_parallel cfg2 two_locations_map 4 ^^ 1) (mixed, Rng (\<lambda>k. k) 0, [])))))"
proof -
  have h1: "get_node_neighborhood_lookup_map two_locations = Inr two_locations_map"
    unfolding get_node_neighborhood_lookup_map_def two_locations_map_def
    by (simp add: two_locations_def)
  have h2: "edges_in_graph two_locations"
    by (simp add: edges_in_graph_def two_locations_def is_vertex_def)
  have h3: "\<forall>p\<in>set mixed. is_vertex two_locations (location p)"
    by (simp add: mixed_def seeded_def is_vertex_def two_locations_def)
  have h3': "list_all (\<lambda>p. is_vertex two_locations (location p)) mixed"
    using h3 by (simp add: list_all_iff)
  have h4: "0 < chunk mixed"
    by (simp add: chunk_def DEFAULT_NUMBER_OF_THREADS_def mixed_def)
  have h5: "4 \<le> int (length mixed)" by (simp add: mixed_def)
  show ?thesis
    using h1 h2 h3' h4 h5
      movement_within_neighborhood [OF h1 h2 h3 refl refl h4 h5,
        where cfg = cfg2 and k = 1 and g = "Rng (\<lambda>k. k) 0" and prior = "[]"]
    by blast
qed

section \<open>Claims about reset\_input\<close>

lemma get_random_individuals_length:
  "length (fst (get_random_individuals n lc g)) = n"
  by (induction n arbitrary: g) (simp_all add: Let_def split_beta)

lemma get_random_individuals_susceptible:
  "\<forall>p\<in>set (fst (get_random_individuals n lc g)). infectionState p = Susceptible \<and> \<not> everHit p"
  by (induction n arbitrary: g) (simp_all add: Let_def split_beta)

lemma infect_initial_not_invalid:
  "infect_initial indices individuals \<noteq> Inl InvalidConfiguration"
  by (induction indices arbitrary: individuals) simp_all

lemma infect_initial_upt:
  "j \<le> k \<Longrightarrow> k \<le> length individuals \<Longrightarrow>
   infect_initial [j..<k] individuals =
     Inr (take j individuals @ map infect (take (k - j) (drop j individuals)) @ drop k individuals)"
proof (induction "k - j" arbitrary: j individuals)
  case 0
  then show ?case by simp
next
  case (Suc d)
  then have lt: "j < k" by simp
  define individuals' where "individuals' = individuals[j := infect (individuals ! j)]"
  have len: "length individuals' = length individuals" by (simp add: individuals'_def)
  have upt: "[j..<k] = j # [Suc j..<k]" using lt by (simp add: upt_conv_Cons)
  have tk: "take (Suc j) individuals' = take j individuals @ [infect (individuals ! j)]"
    using lt Suc.prems by (simp add: individuals'_def take_Suc_conv_app_nth)
  have dr: "drop (Suc j) individuals' = drop (Suc j) individuals"
    by (simp add: individuals'_def)
  have dk: "drop k individuals' = drop k individuals"
    using lt by (simp add: individuals'_def)
  have dj: "drop j individuals = individuals ! j # drop (Suc j) individuals"
    using lt Suc.prems by (simp add: Cons_nth_drop_Suc)
  have kj: "k - j = Suc (k - Suc j)" using lt by simp
  have IH: "infect_initial [Suc j..<k] individuals' =
     Inr (take (Suc j) individuals' @ map infect (take (k - Suc j) (drop (Suc j) individuals')) @
          drop k individuals')"
    using Suc.hyps(2) Suc.prems lt by (intro Suc.hyps(1)) (simp_all add: len)
  show ?case
    unfolding upt using lt Suc.prems
    by (simp add: IH tk dr dk dj kj individuals'_def [symmetric])
qed

lemma infect_initial_beyond:
  assumes "length individuals < k"
  shows "infect_initial [0..<k] individuals = Inl IndexOutOfRange"
proof -
  have split: "[0..<k] = [0..<length individuals] @ length individuals # [Suc (length individuals)..<k]"
    using assms by (metis le_add1 less_imp_add_positive upt_add_eq_append upt_conv_Cons
        add.left_neutral less_add_same_cancel1)
  have app: "\<And>xs ys individuals r. infect_initial xs individuals = Inr r \<Longrightarrow>
             infect_initial (xs @ ys) individuals = infect_initial ys r"
  proof -
    fix xs ys :: "nat list" and individuals r :: "Individual list"
    show "infect_initial xs individuals = Inr r \<Longrightarrow>
             infect_initial (xs @ ys) individuals = infect_initial ys r"
      by (induction xs arbitrary: individuals) (auto split: if_splits)
  qed
  have first: "infect_initial [0..<length individuals] individuals = Inr (map infect individuals)"
    using infect_initial_upt [of 0 "length individuals" individuals] by simp
  show ?thesis
    unfolding split using app [OF first] by simp
qed

lemma reset_input_not_invalid:
  "reset_input INITIAL_INFECTED_COUNT individual_graph individual_count g
     \<noteq> Inl InvalidConfiguration"
  using infect_initial_not_invalid
  by (auto simp: reset_input_def Let_def split_beta split: sum.splits)

lemma filter_infected_seeded:
  assumes "\<forall>p\<in>set ys. infectionState p = Susceptible"
  shows "filter is_infected (map infect xs @ ys) = map infect xs"
proof -
  have "filter is_infected (map infect xs) = map infect xs"
    by (induction xs) (simp_all add: is_infected_infect)
  moreover have "filter is_infected ys = []"
    using assms by (induction ys) (simp_all add: is_infected_def)
  ultimately show ?thesis by simp
qed

text \<open>
  A population built by \<^verbatim>\<open>reset_input\<close> satisfies the invariant of the class: the seeds are
  infected and hit, the others are Susceptible.
\<close>

lemma infect_initial_invariant:
  assumes "infect_initial indices individuals = Inr seeded_individuals"
    and "\<forall>p\<in>set individuals. hit_if_infected p"
  shows "\<forall>p\<in>set seeded_individuals. hit_if_infected p"
  using assms
proof (induction indices arbitrary: individuals)
  case Nil
  then show ?case by simp
next
  case (Cons i rest)
  have i: "i < length individuals"
    using Cons.prems(1) by (auto split: if_splits)
  then have next_call: "infect_initial rest (individuals[i := infect (individuals ! i)]) =
                          Inr seeded_individuals"
    using Cons.prems(1) by simp
  have "hit_if_infected (infect (individuals ! i))"
    by (simp add: hit_if_infected_def is_hit_def infect_def)
  then have "\<forall>p\<in>set (individuals[i := infect (individuals ! i)]). hit_if_infected p"
    using Cons.prems(2) set_update_subset_insert [of individuals i "infect (individuals ! i)"]
    by auto
  with next_call show ?case by (rule Cons.IH)
qed

lemma reset_input_invariant:
  assumes "reset_input INITIAL_INFECTED_COUNT individual_graph individual_count g =
             Inr (location_count, edge_count, individuals, g')"
  shows "\<forall>p\<in>set individuals. is_infected p \<longrightarrow> is_hit p"
proof -
  define fresh where "fresh = fst (get_random_individuals (nat individual_count)
                                     (int (vertex_count individual_graph)) g)"
  have "\<forall>p\<in>set fresh. hit_if_infected p"
    using get_random_individuals_susceptible [of "nat individual_count"
        "int (vertex_count individual_graph)" g]
    by (simp add: fresh_def hit_if_infected_def is_infected_def)
  moreover have "infect_initial [0..<nat INITIAL_INFECTED_COUNT] fresh = Inr individuals"
    using assms by (auto simp: reset_input_def Let_def split_beta fresh_def split: sum.splits)
  ultimately have "\<forall>p\<in>set individuals. hit_if_infected p"
    using infect_initial_invariant by blast
  then show ?thesis by (simp add: hit_if_infected_def)
qed

text \<open>
  Claim C8, as the code has it. \<^verbatim>\<open>reset_input\<close> compares the two counts nowhere and never
  fails with \<open>InvalidConfiguration\<close>. For \<open>0 \<le> INITIAL_INFECTED_COUNT \<le> individual_count\<close>
  it succeeds, with a population of \<open>individual_count\<close> individuals of which exactly the
  first \<open>INITIAL_INFECTED_COUNT\<close> are infected.
\<close>

theorem reset_input_seeds:
  assumes "0 \<le> INITIAL_INFECTED_COUNT" and "INITIAL_INFECTED_COUNT \<le> individual_count"
    and "0 < vertex_count individual_graph"
  shows "reset_input INITIAL_INFECTED_COUNT individual_graph individual_count g
           \<noteq> Inl InvalidConfiguration \<and>
         (\<exists>individuals g'.
            reset_input INITIAL_INFECTED_COUNT individual_graph individual_count g =
              Inr (int (vertex_count individual_graph), int (length (m_edges individual_graph)),
                   individuals, g') \<and>
            length individuals = nat individual_count \<and>
            length (filter is_infected individuals) = nat INITIAL_INFECTED_COUNT \<and>
            (\<forall>i<nat individual_count.
               is_infected (individuals ! i) = (i < nat INITIAL_INFECTED_COUNT)))"
proof
  show "reset_input INITIAL_INFECTED_COUNT individual_graph individual_count g
           \<noteq> Inl InvalidConfiguration"
    by (rule reset_input_not_invalid)
next
  define k where "k = nat INITIAL_INFECTED_COUNT"
  define r where "r = get_random_individuals (nat individual_count)
                        (int (vertex_count individual_graph)) g"
  define fresh where "fresh = fst r"
  have len: "length fresh = nat individual_count"
    by (simp add: fresh_def r_def get_random_individuals_length)
  have sus: "\<forall>p\<in>set fresh. infectionState p = Susceptible"
    using get_random_individuals_susceptible [of "nat individual_count"
        "int (vertex_count individual_graph)" g] by (simp add: fresh_def r_def)
  have kle: "k \<le> length fresh" using assms(1,2) by (simp add: k_def len)
  define seeded_individuals where
    "seeded_individuals = map infect (take k fresh) @ drop k fresh"
  have ini: "infect_initial [0..<k] fresh = Inr seeded_individuals"
    using infect_initial_upt [of 0 k fresh] kle by (simp add: seeded_individuals_def)
  have res: "reset_input INITIAL_INFECTED_COUNT individual_graph individual_count g =
              Inr (int (vertex_count individual_graph), int (length (m_edges individual_graph)),
                   seeded_individuals, snd r)"
    using ini by (simp add: reset_input_def Let_def split_beta k_def fresh_def r_def)
  have l: "length seeded_individuals = nat individual_count"
    using kle by (simp add: seeded_individuals_def len)
  have "\<forall>p\<in>set (drop k fresh). infectionState p = Susceptible"
    using sus by (meson in_set_dropD)
  then have "filter is_infected seeded_individuals = map infect (take k fresh)"
    unfolding seeded_individuals_def by (rule filter_infected_seeded)
  then have c: "length (filter is_infected seeded_individuals) = k"
    using kle by simp
  have n: "\<forall>i<nat individual_count. is_infected (seeded_individuals ! i) = (i < k)"
  proof (intro allI impI)
    fix i assume i: "i < nat individual_count"
    show "is_infected (seeded_individuals ! i) = (i < k)"
    proof (cases "i < k")
      case True
      then have "seeded_individuals ! i = infect (fresh ! i)"
        using kle by (simp add: seeded_individuals_def nth_append)
      then show ?thesis using True by (simp add: is_infected_infect)
    next
      case False
      then have "seeded_individuals ! i = fresh ! i"
        using kle i len by (simp add: seeded_individuals_def nth_append)
      moreover have "infectionState (fresh ! i) = Susceptible"
        using sus i len by simp
      ultimately show ?thesis using False by (simp add: is_infected_def)
    qed
  qed
  show "\<exists>individuals g'.
            reset_input INITIAL_INFECTED_COUNT individual_graph individual_count g =
              Inr (int (vertex_count individual_graph), int (length (m_edges individual_graph)),
                   individuals, g') \<and>
            length individuals = nat individual_count \<and>
            length (filter is_infected individuals) = nat INITIAL_INFECTED_COUNT \<and>
            (\<forall>i<nat individual_count.
               is_infected (individuals ! i) = (i < nat INITIAL_INFECTED_COUNT))"
    using res l c n unfolding k_def by blast
qed

theorem reset_input_seeds_witness:
  "(0::int) \<le> 1 \<and> (1::int) \<le> 3 \<and> 0 < vertex_count two_locations \<and>
   reset_input 1 two_locations 3 (Rng (\<lambda>k. k) 0) \<noteq> Inl InvalidConfiguration \<and>
   (\<exists>individuals g'.
      reset_input 1 two_locations 3 (Rng (\<lambda>k. k) 0) =
        Inr (int (vertex_count two_locations), int (length (m_edges two_locations)),
             individuals, g') \<and>
      length individuals = nat 3 \<and>
      length (filter is_infected individuals) = nat 1 \<and>
      (\<forall>i<nat 3. is_infected (individuals ! i) = (i < nat 1)))"
proof -
  have h1: "(0::int) \<le> 1" by simp
  have h2: "(1::int) \<le> 3" by simp
  have h3: "0 < vertex_count two_locations" by (simp add: two_locations_def)
  show ?thesis
    using h1 h2 h3 reset_input_seeds [OF h1 h2 h3, of "Rng (\<lambda>k. k) 0"] by blast
qed

text \<open>
  Claim C8 as stated asks for \<open>InvalidConfiguration\<close> when the seed count exceeds the
  population. With two seeds and one individual the loop of lines 160 to 162 infects
  \<^verbatim>\<open>individuals[0]\<close> and then indexes \<^verbatim>\<open>individuals[1]\<close>, beyond the vector.
\<close>

theorem reset_input_no_check_counterexample:
  "reset_input 2 two_locations 1 (Rng (\<lambda>k. k) 0) = Inl IndexOutOfRange \<and>
   reset_input 2 two_locations 1 (Rng (\<lambda>k. k) 0) \<noteq> Inl InvalidConfiguration"
  by (simp add: reset_input_def two_locations_def next_draw_def Let_def upt_conv_Cons)

subsection \<open>The calls of try\_infect\<close>

lemma scan_parallel_calls_copy:
  assumes "\<not> is_infected current_individual"
    and "c \<in> set (scan_parallel_calls cfg index scanned current_individual individuals g)"
  shows "target c = index \<and> copy c = current_individual \<and> source c \<in> set scanned \<and>
         contact c = individuals ! source c \<and> is_infected (contact c) \<and>
         get_location (copy c) = get_location (contact c)"
  using assms
proof (induction scanned arbitrary: current_individual g)
  case Nil
  then show ?case by simp
next
  case (Cons affecting_index rest)
  show ?case
  proof (cases "is_infected (individuals ! affecting_index) \<and>
                get_location current_individual = get_location (individuals ! affecting_index)")
    case False
    then have "c \<in> set (scan_parallel_calls cfg index rest current_individual individuals g)"
      using Cons.prems(2) by (auto simp: Let_def split: if_splits)
    then have "target c = index \<and> copy c = current_individual \<and> source c \<in> set rest \<and>
         contact c = individuals ! source c \<and> is_infected (contact c) \<and>
         get_location (copy c) = get_location (contact c)"
      by (rule Cons.IH [OF Cons.prems(1)])
    then show ?thesis by auto
  next
    case True
    obtain tried g1 where t: "try_infect cfg current_individual g = (tried, g1)"
      by fastforce
    show ?thesis
    proof (cases "c = Attempt index current_individual affecting_index
                         (individuals ! affecting_index) (is_infected tried)")
      case here: True
      then show ?thesis using True by simp
    next
      case later: False
      then have no: "\<not> is_infected tried"
        and mem: "c \<in> set (scan_parallel_calls cfg index rest tried individuals g1)"
        using Cons.prems(2) True t by (auto simp: Let_def split: if_splits)
      have same: "tried = current_individual"
        using try_infect_cases [OF t] is_infected_infect no by metis
      have "target c = index \<and> copy c = tried \<and> source c \<in> set rest \<and>
         contact c = individuals ! source c \<and> is_infected (contact c) \<and>
         get_location (copy c) = get_location (contact c)"
        using no mem by (rule Cons.IH)
      then show ?thesis using same by auto
    qed
  qed
qed

lemma infection_parallel_calls_sound:
  assumes "c \<in> set (infection_parallel_calls cfg n indices individuals g)"
  shows "\<not> is_infected (copy c) \<and> is_infected (contact c) \<and>
         get_location (copy c) = get_location (contact c)"
  using assms
proof (induction indices arbitrary: individuals g)
  case Nil
  then show ?case by simp
next
  case (Cons index rest)
  show ?case
  proof (cases "is_infected (individuals ! index)")
    case True
    then show ?thesis using Cons by simp
  next
    case False
    obtain individuals' g' where sc:
      "scan_parallel cfg index [0..<nat n] (individuals ! index) individuals g = (individuals', g')"
      by fastforce
    have "c \<in> set (scan_parallel_calls cfg index [0..<nat n] (individuals ! index) individuals g) \<or>
          c \<in> set (infection_parallel_calls cfg n rest individuals' g')"
      using Cons.prems False sc by (simp add: Let_def)
    then show ?thesis
    proof
      assume "c \<in> set (scan_parallel_calls cfg index [0..<nat n] (individuals ! index) individuals g)"
      with False have "target c = index \<and> copy c = individuals ! index \<and>
         source c \<in> set [0..<nat n] \<and>
         contact c = individuals ! source c \<and> is_infected (contact c) \<and>
         get_location (copy c) = get_location (contact c)"
        by (rule scan_parallel_calls_copy)
      then show ?thesis using False by auto
    next
      assume "c \<in> set (infection_parallel_calls cfg n rest individuals' g')"
      then show ?thesis by (rule Cons.IH)
    qed
  qed
qed

lemma scan_parallel_calls_stop:
  assumes "\<not> is_infected current_individual"
  shows "prefix (map source (scan_parallel_calls cfg index scanned current_individual individuals g))
           (filter (\<lambda>a. is_infected (individuals ! a) \<and>
                        get_location current_individual = get_location (individuals ! a)) scanned) \<and>
         (\<forall>c\<in>set (butlast (scan_parallel_calls cfg index scanned current_individual individuals g)).
            \<not> succeeded c) \<and>
         ((\<forall>c\<in>set (scan_parallel_calls cfg index scanned current_individual individuals g).
            \<not> succeeded c) \<longrightarrow>
          map source (scan_parallel_calls cfg index scanned current_individual individuals g) =
          filter (\<lambda>a. is_infected (individuals ! a) \<and>
                       get_location current_individual = get_location (individuals ! a)) scanned)"
  using assms
proof (induction scanned arbitrary: current_individual g)
  case Nil
  then show ?case by simp
next
  case (Cons affecting_index rest)
  show ?case
  proof (cases "is_infected (individuals ! affecting_index) \<and>
                get_location current_individual = get_location (individuals ! affecting_index)")
    case False
    then show ?thesis using Cons.IH [OF Cons.prems, of g] by (auto simp: Let_def)
  next
    case True
    obtain tried g1 where t: "try_infect cfg current_individual g = (tried, g1)"
      by fastforce
    show ?thesis
    proof (cases "is_infected tried")
      case yes: True
      then show ?thesis using True t by (simp add: Let_def)
    next
      case no: False
      then have same: "tried = current_individual"
        using try_infect_cases [OF t] is_infected_infect by metis
      show ?thesis
        using Cons.IH [OF Cons.prems, of g1] True t no same by (simp add: Let_def)
    qed
  qed
qed

lemma spread_serial_calls_sound:
  assumes "is_infected (individuals ! i)"
    and "c \<in> set (spread_serial_calls cfg i scanned individuals g)"
  shows "target c \<noteq> source c \<and> is_infected (contact c) \<and>
         get_location (contact c) = get_location (copy c)"
  using assms
proof (induction scanned arbitrary: individuals g)
  case Nil
  then show ?case by simp
next
  case (Cons j rest)
  show ?case
  proof (cases "i \<noteq> j \<and> get_location (individuals ! i) = get_location (individuals ! j)")
    case False
    then have "c \<in> set (spread_serial_calls cfg i rest individuals g)"
      using Cons.prems(2) by (auto split: if_splits)
    with Cons.prems(1) show ?thesis by (rule Cons.IH)
  next
    case True
    obtain tried g' where t: "try_infect cfg (individuals ! j) g = (tried, g')"
      by fastforce
    show ?thesis
    proof (cases "c = Attempt j (individuals ! j) i (individuals ! i) (is_infected tried)")
      case here: True
      then show ?thesis using True Cons.prems(1) by auto
    next
      case later: False
      then have mem: "c \<in> set (spread_serial_calls cfg i rest (individuals[j := tried]) g')"
        using Cons.prems(2) True t by (simp add: Let_def)
      have "is_infected (individuals[j := tried] ! i)"
        using Cons.prems(1) True by simp
      then show ?thesis using mem by (rule Cons.IH)
    qed
  qed
qed

lemma infection_serial_calls_sound:
  assumes "c \<in> set (infection_serial_calls cfg indices individuals g)"
  shows "target c \<noteq> source c \<and> is_infected (contact c) \<and>
         get_location (contact c) = get_location (copy c)"
  using assms
proof (induction indices arbitrary: individuals g)
  case Nil
  then show ?case by simp
next
  case (Cons i rest)
  show ?case
  proof (cases "is_infected (individuals ! i)")
    case False
    then show ?thesis using Cons by simp
  next
    case True
    have "c \<in> set (spread_serial_calls cfg i [0..<length individuals] individuals g) \<or>
          c \<in> set (infection_serial_calls cfg rest
                 (fst (spread_serial cfg i [0..<length individuals] individuals g))
                 (snd (spread_serial cfg i [0..<length individuals] individuals g)))"
      using Cons.prems True by (simp add: Let_def split_beta)
    then show ?thesis
    proof
      assume "c \<in> set (spread_serial_calls cfg i [0..<length individuals] individuals g)"
      with True show ?thesis by (rule spread_serial_calls_sound)
    next
      assume "c \<in> set (infection_serial_calls cfg rest
                 (fst (spread_serial cfg i [0..<length individuals] individuals g))
                 (snd (spread_serial cfg i [0..<length individuals] individuals g)))"
      then show ?thesis by (rule Cons.IH)
    qed
  qed
qed

lemma infection_serial_append:
  "infection_serial cfg (xs @ ys) individuals g =
     infection_serial cfg ys (fst (infection_serial cfg xs individuals g))
       (snd (infection_serial cfg xs individuals g))"
  by (induction xs arbitrary: individuals g) (simp_all add: Let_def split_beta)

lemma infection_serial_calls_append:
  "infection_serial_calls cfg (xs @ ys) individuals g =
     infection_serial_calls cfg xs individuals g @
     infection_serial_calls cfg ys (fst (infection_serial cfg xs individuals g))
       (snd (infection_serial cfg xs individuals g))"
  by (induction xs arbitrary: individuals g) (simp_all add: Let_def split_beta)

lemma try_infect_location:
  "get_location (fst (try_infect cfg p g)) = get_location p"
  by (simp add: try_infect_def Let_def split_beta get_location_def location_infect)

lemma spread_serial_calls_targets:
  "map target (spread_serial_calls cfg i scanned individuals g) =
     filter (\<lambda>j. i \<noteq> j \<and> get_location (individuals ! i) = get_location (individuals ! j)) scanned \<and>
   (\<forall>c\<in>set (spread_serial_calls cfg i scanned individuals g). source c = i)"
proof (induction scanned arbitrary: individuals g)
  case Nil
  then show ?case by simp
next
  case (Cons j rest)
  show ?case
  proof (cases "i \<noteq> j \<and> get_location (individuals ! i) = get_location (individuals ! j)")
    case False
    then show ?thesis using Cons.IH [of individuals g] by auto
  next
    case True
    define tried where "tried = fst (try_infect cfg (individuals ! j) g)"
    define g' where "g' = snd (try_infect cfg (individuals ! j) g)"
    define individuals' where "individuals' = individuals[j := tried]"
    have loc: "get_location tried = get_location (individuals ! j)"
      unfolding tried_def by (rule try_infect_location)
    have same: "\<And>k. get_location (individuals' ! k) = get_location (individuals ! k)"
    proof -
      fix k
      show "get_location (individuals' ! k) = get_location (individuals ! k)"
      proof (cases "k = j \<and> j < length individuals")
        case True
        then show ?thesis using loc by (simp add: individuals'_def)
      next
        case False
        then show ?thesis
          by (cases "j < length individuals") (auto simp: individuals'_def list_update_beyond)
      qed
    qed
    have flt: "filter (\<lambda>j. i \<noteq> j \<and> get_location (individuals' ! i) = get_location (individuals' ! j)) rest =
               filter (\<lambda>j. i \<noteq> j \<and> get_location (individuals ! i) = get_location (individuals ! j)) rest"
      by (simp add: same)
    have unfold: "spread_serial_calls cfg i (j # rest) individuals g =
          Attempt j (individuals ! j) i (individuals ! i) (is_infected tried) #
          spread_serial_calls cfg i rest individuals' g'"
      using True by (simp add: Let_def split_beta tried_def g'_def individuals'_def)
    show ?thesis
      unfolding unfold using Cons.IH [of individuals' g'] True by (simp add: flt)
  qed
qed

lemma infection_serial_reached:
  assumes "is_infected (individuals ! i)" and "i < length individuals"
  shows "is_infected (fst (infection_serial cfg indices individuals g) ! i)"
proof -
  have "list_all2 (\<lambda>p q. is_infected p \<longrightarrow> is_infected q) individuals
          (fst (infection_serial cfg indices individuals g))"
    by (rule infection_serial_pointwise) (simp_all add: is_infected_infect)
  then show ?thesis using assms by (simp add: list_all2_conv_all_nth)
qed

lemma infection_serial_calls_complete:
  assumes "i < length individuals" and "j < length individuals" and "i \<noteq> j"
    and "get_location (individuals ! i) = get_location (individuals ! j)"
    and "is_infected (fst (infection_serial cfg [0..<i] individuals g) ! i)"
  shows "\<exists>c\<in>set (infection_serial_calls cfg [0..<length individuals] individuals g).
           source c = i \<and> target c = j"
proof -
  define L where "L = fst (infection_serial cfg [0..<i] individuals g)"
  define gi where "gi = snd (infection_serial cfg [0..<i] individuals g)"
  have keep: "list_all2 (\<lambda>p q. get_location q = get_location p) individuals L"
    unfolding L_def by (rule infection_serial_pointwise) (simp_all add: get_location_def location_infect)
  have len: "length L = length individuals"
    using list_all2_lengthD [OF keep] by simp
  have loc: "\<And>k. k < length individuals \<Longrightarrow> get_location (L ! k) = get_location (individuals ! k)"
    using keep by (simp add: list_all2_conv_all_nth)
  have split: "[0..<length individuals] = [0..<i] @ i # [Suc i..<length individuals]"
    using assms(1) by (metis le_add1 less_imp_add_positive upt_add_eq_append upt_conv_Cons
        add.left_neutral less_add_same_cancel1)
  have inf: "is_infected (L ! i)" using assms(5) by (simp add: L_def)
  have "j \<in> set (filter (\<lambda>j. i \<noteq> j \<and> get_location (L ! i) = get_location (L ! j)) [0..<length L])"
    using assms(1-4) by (simp add: len loc)
  then have "j \<in> set (map target (spread_serial_calls cfg i [0..<length L] L gi))"
    using spread_serial_calls_targets [of cfg i "[0..<length L]" L gi] by simp
  then obtain c where c: "c \<in> set (spread_serial_calls cfg i [0..<length L] L gi)" "target c = j"
    by auto
  then have src: "source c = i"
    using spread_serial_calls_targets [of cfg i "[0..<length L]" L gi] by simp
  have "c \<in> set (infection_serial_calls cfg (i # [Suc i..<length individuals]) L gi)"
    using inf c(1) by (simp add: Let_def split_beta)
  then have "c \<in> set (infection_serial_calls cfg [0..<length individuals] individuals g)"
    by (subst split) (simp add: infection_serial_calls_append L_def gi_def)
  then show ?thesis using c(2) src by blast
qed

lemma crowd_parallel_calls:
  "map (\<lambda>c. (target c, infectionState (copy c), source c, succeeded c))
     (infection_parallel_calls cfg2 4 [0..<length crowd] crowd (Rng (\<lambda>k. k) 0)) =
   [(2, Recovered, 0, False), (2, Recovered, 1, False),
    (3, Susceptible, 0, False), (3, Susceptible, 1, True)]"
  by code_simp

text \<open>
  Claim C5, as the code has it. In the infection phase of \<^verbatim>\<open>simulate_parallel\<close>,
  \<^verbatim>\<open>try_infect\<close> is called only on an individual that is not Infected when the call is
  made (Susceptible or Recovered), and each call is caused by an Infected individual at
  the same location. A scan calls it for the Infected individuals at that location in
  index order, no call but the last of a scan leaves the individual infected, and a scan
  without a successful call has tried every one of them: the scan stops at the first
  attempt that succeeds. In \<^verbatim>\<open>simulate_serial\<close>, each call is made on another individual at
  the location of an Infected individual, whatever its state; and for each individual
  that is Infected when the outer loop reaches it, which every individual Infected at
  the start of the phase is, there is a call on every other individual at its location.
\<close>

theorem try_infect_invocations:
  assumes "0 < chunk individuals" and "individual_count \<le> int (length individuals)"
  shows "(\<forall>c\<in>set (infection_parallel_calls cfg individual_count [0..<length individuals]
                     individuals g).
            \<not> is_infected (copy c) \<and> is_infected (contact c) \<and>
            get_location (copy c) = get_location (contact c)) \<and>
         (\<not> is_infected current_individual \<longrightarrow>
            prefix (map source (scan_parallel_calls cfg index [0..<nat individual_count]
                                  current_individual individuals g))
              (filter (\<lambda>a. is_infected (individuals ! a) \<and>
                           get_location current_individual = get_location (individuals ! a))
                 [0..<nat individual_count]) \<and>
            (\<forall>c\<in>set (butlast (scan_parallel_calls cfg index [0..<nat individual_count]
                                   current_individual individuals g)). \<not> succeeded c) \<and>
            ((\<forall>c\<in>set (scan_parallel_calls cfg index [0..<nat individual_count]
                          current_individual individuals g). \<not> succeeded c) \<longrightarrow>
             map source (scan_parallel_calls cfg index [0..<nat individual_count]
                           current_individual individuals g) =
             filter (\<lambda>a. is_infected (individuals ! a) \<and>
                          get_location current_individual = get_location (individuals ! a))
               [0..<nat individual_count])) \<and>
         (\<forall>c\<in>set (infection_serial_calls cfg [0..<length individuals] individuals g).
            target c \<noteq> source c \<and> is_infected (contact c) \<and>
            get_location (contact c) = get_location (copy c)) \<and>
         (\<forall>i j. i < length individuals \<and> j < length individuals \<and> i \<noteq> j \<and>
                get_location (individuals ! i) = get_location (individuals ! j) \<and>
                is_infected (fst (infection_serial cfg [0..<i] individuals g) ! i) \<longrightarrow>
            (\<exists>c\<in>set (infection_serial_calls cfg [0..<length individuals] individuals g).
               source c = i \<and> target c = j)) \<and>
         (\<forall>i. i < length individuals \<and> is_infected (individuals ! i) \<longrightarrow>
            is_infected (fst (infection_serial cfg [0..<i] individuals g) ! i))"
proof -
  have calls: "(\<forall>c\<in>set (infection_parallel_calls cfg individual_count [0..<length individuals]
                     individuals g).
            \<not> is_infected (copy c) \<and> is_infected (contact c) \<and>
            get_location (copy c) = get_location (contact c)) \<and>
         (\<not> is_infected current_individual \<longrightarrow>
            prefix (map source (scan_parallel_calls cfg index [0..<nat individual_count]
                                  current_individual individuals g))
              (filter (\<lambda>a. is_infected (individuals ! a) \<and>
                           get_location current_individual = get_location (individuals ! a))
                 [0..<nat individual_count]) \<and>
            (\<forall>c\<in>set (butlast (scan_parallel_calls cfg index [0..<nat individual_count]
                                   current_individual individuals g)). \<not> succeeded c) \<and>
            ((\<forall>c\<in>set (scan_parallel_calls cfg index [0..<nat individual_count]
                          current_individual individuals g). \<not> succeeded c) \<longrightarrow>
             map source (scan_parallel_calls cfg index [0..<nat individual_count]
                           current_individual individuals g) =
             filter (\<lambda>a. is_infected (individuals ! a) \<and>
                          get_location current_individual = get_location (individuals ! a))
               [0..<nat individual_count])) \<and>
         (\<forall>c\<in>set (infection_serial_calls cfg [0..<length individuals] individuals g).
            target c \<noteq> source c \<and> is_infected (contact c) \<and>
            get_location (contact c) = get_location (copy c))"
    using infection_parallel_calls_sound scan_parallel_calls_stop infection_serial_calls_sound
    by blast
  have complete: "\<forall>i j. i < length individuals \<and> j < length individuals \<and> i \<noteq> j \<and>
                get_location (individuals ! i) = get_location (individuals ! j) \<and>
                is_infected (fst (infection_serial cfg [0..<i] individuals g) ! i) \<longrightarrow>
            (\<exists>c\<in>set (infection_serial_calls cfg [0..<length individuals] individuals g).
               source c = i \<and> target c = j)"
    using infection_serial_calls_complete by blast
  have reached: "\<forall>i. i < length individuals \<and> is_infected (individuals ! i) \<longrightarrow>
            is_infected (fst (infection_serial cfg [0..<i] individuals g) ! i)"
    using infection_serial_reached by blast
  show ?thesis
    by (rule conjI [OF calls [THEN conjunct1]
          conjI [OF calls [THEN conjunct2, THEN conjunct1]
            conjI [OF calls [THEN conjunct2, THEN conjunct2] conjI [OF complete reached]]]])
qed

theorem try_infect_invocations_witness:
  "0 < chunk crowd \<and> 4 \<le> int (length crowd) \<and> \<not> is_infected (crowd ! 3) \<and>
   infection_parallel_calls cfg2 4 [0..<length crowd] crowd (Rng (\<lambda>k. k) 0) \<noteq> [] \<and>
   \<not> is_infected (copy (hd (infection_parallel_calls cfg2 4 [0..<length crowd] crowd
                               (Rng (\<lambda>k. k) 0)))) \<and>
   is_infected (contact (hd (infection_parallel_calls cfg2 4 [0..<length crowd] crowd
                               (Rng (\<lambda>k. k) 0)))) \<and>
   prefix (map source (scan_parallel_calls cfg2 3 [0..<nat 4] (crowd ! 3) crowd (Rng (\<lambda>k. k) 0)))
     (filter (\<lambda>a. is_infected (crowd ! a) \<and> get_location (crowd ! 3) = get_location (crowd ! a))
        [0..<nat 4]) \<and>
   infection_serial_calls cfg2 [0..<length crowd] crowd (Rng (\<lambda>k. k) 0) \<noteq> [] \<and>
   target (hd (infection_serial_calls cfg2 [0..<length crowd] crowd (Rng (\<lambda>k. k) 0)))
     \<noteq> source (hd (infection_serial_calls cfg2 [0..<length crowd] crowd (Rng (\<lambda>k. k) 0))) \<and>
   (1 :: nat) < length crowd \<and> (2 :: nat) < length crowd \<and> (1 :: nat) \<noteq> 2 \<and>
   get_location (crowd ! 1) = get_location (crowd ! 2) \<and> is_infected (crowd ! 1) \<and>
   is_infected (fst (infection_serial cfg2 [0..<1] crowd (Rng (\<lambda>k. k) 0)) ! 1) \<and>
   infectionState (crowd ! 2) = Recovered \<and>
   list_ex (\<lambda>c. source c = 1 \<and> target c = 2)
     (infection_serial_calls cfg2 [0..<length crowd] crowd (Rng (\<lambda>k. k) 0))"
proof -
  have h0: "0 < chunk crowd"
    by (simp add: chunk_def DEFAULT_NUMBER_OF_THREADS_def crowd_def)
  have h1: "4 \<le> int (length crowd)" by (simp add: crowd_def)
  have h2: "\<not> is_infected (crowd ! 3)" by (simp add: crowd_def seeded_def is_infected_def)
  have h3: "infection_parallel_calls cfg2 4 [0..<length crowd] crowd (Rng (\<lambda>k. k) 0) \<noteq> []"
    using crowd_parallel_calls by auto
  then have h4: "hd (infection_parallel_calls cfg2 4 [0..<length crowd] crowd (Rng (\<lambda>k. k) 0))
      \<in> set (infection_parallel_calls cfg2 4 [0..<length crowd] crowd (Rng (\<lambda>k. k) 0))"
    by (rule hd_in_set)
  have h5: "infection_serial_calls cfg2 [0..<length crowd] crowd (Rng (\<lambda>k. k) 0) \<noteq> []"
    by code_simp
  then have h6: "hd (infection_serial_calls cfg2 [0..<length crowd] crowd (Rng (\<lambda>k. k) 0))
      \<in> set (infection_serial_calls cfg2 [0..<length crowd] crowd (Rng (\<lambda>k. k) 0))"
    by (rule hd_in_set)
  have h7: "(1 :: nat) < length crowd" "(2 :: nat) < length crowd" "(1 :: nat) \<noteq> 2"
    by (simp_all add: crowd_def)
  have h8: "get_location (crowd ! 1) = get_location (crowd ! 2)"
    by (simp add: crowd_def seeded_def get_location_def)
  have h9: "is_infected (crowd ! 1)"
    by (simp add: crowd_def seeded_def is_infected_def)
  note calls = try_infect_invocations [OF h0 h1, where cfg = cfg2 and g = "Rng (\<lambda>k. k) 0"
        and current_individual = "crowd ! 3" and index = 3]
  note parallel_sound = calls [THEN conjunct1]
  note scan_stops = calls [THEN conjunct2, THEN conjunct1]
  note serial_sound = calls [THEN conjunct2, THEN conjunct2, THEN conjunct1]
  note serial_complete = calls [THEN conjunct2, THEN conjunct2, THEN conjunct2, THEN conjunct1]
  note serial_reached = calls [THEN conjunct2, THEN conjunct2, THEN conjunct2, THEN conjunct2]
  have w1: "\<not> is_infected (copy (hd (infection_parallel_calls cfg2 4 [0..<length crowd] crowd
                               (Rng (\<lambda>k. k) 0)))) \<and>
     is_infected (contact (hd (infection_parallel_calls cfg2 4 [0..<length crowd] crowd
                               (Rng (\<lambda>k. k) 0))))"
    using h4 parallel_sound by blast
  have w2: "prefix (map source (scan_parallel_calls cfg2 3 [0..<nat 4] (crowd ! 3) crowd
                                 (Rng (\<lambda>k. k) 0)))
     (filter (\<lambda>a. is_infected (crowd ! a) \<and> get_location (crowd ! 3) = get_location (crowd ! a))
        [0..<nat 4])"
    using h2 scan_stops by blast
  have w3: "target (hd (infection_serial_calls cfg2 [0..<length crowd] crowd (Rng (\<lambda>k. k) 0)))
     \<noteq> source (hd (infection_serial_calls cfg2 [0..<length crowd] crowd (Rng (\<lambda>k. k) 0)))"
    using h6 serial_sound by blast
  have w4: "is_infected (fst (infection_serial cfg2 [0..<1] crowd (Rng (\<lambda>k. k) 0)) ! 1)"
    using h7(1) h9 serial_reached by blast
  obtain c where c: "c \<in> set (infection_serial_calls cfg2 [0..<length crowd] crowd
                                 (Rng (\<lambda>k. k) 0))"
    and ct: "source c = 1" "target c = 2"
    using h7 h8 w4 serial_complete by blast
  have w5: "list_ex (\<lambda>c. source c = 1 \<and> target c = 2)
     (infection_serial_calls cfg2 [0..<length crowd] crowd (Rng (\<lambda>k. k) 0))"
    unfolding list_ex_iff using c ct by blast
  have h10: "infectionState (crowd ! 2) = Recovered"
    by (simp add: crowd_def seeded_def)
  show ?thesis
    using h0 h1 h2 h3 h5 h7 h8 h9 h10 w1 w2 w3 w4 w5 by blast
qed

text \<open>
  Claim C5 as stated: \<^verbatim>\<open>try_infect\<close> is called only on Susceptible individuals, and the
  scan for an individual stops at the first Infected individual at its location. In a
  population of two infected, one recovered and one susceptible individual at one
  location, with a first draw that does not infect, the parallel phase calls it twice on
  the recovered individual and twice on the susceptible one; the serial phase calls it
  on infected and recovered individuals as well.
\<close>

theorem try_infect_invocations_counterexample:
  "map target (infection_parallel_calls cfg2 4 [0..<length crowd] crowd (Rng (\<lambda>k. k) 0)) =
     [2, 2, 3, 3] \<and>
   map (infectionState \<circ> copy)
     (infection_parallel_calls cfg2 4 [0..<length crowd] crowd (Rng (\<lambda>k. k) 0)) =
     [Recovered, Recovered, Susceptible, Susceptible] \<and>
   map source (infection_parallel_calls cfg2 4 [0..<length crowd] crowd (Rng (\<lambda>k. k) 0)) =
     [0, 1, 0, 1] \<and>
   map succeeded (infection_parallel_calls cfg2 4 [0..<length crowd] crowd (Rng (\<lambda>k. k) 0)) =
     [False, False, False, True] \<and>
   \<not> distinct (map target
         (infection_parallel_calls cfg2 4 [0..<length crowd] crowd (Rng (\<lambda>k. k) 0))) \<and>
   map target (infection_serial_calls cfg2 [0..<length crowd] crowd (Rng (\<lambda>k. k) 0)) =
     [1, 2, 3, 0, 2, 3, 0, 1, 2] \<and>
   map (infectionState \<circ> copy)
     (infection_serial_calls cfg2 [0..<length crowd] crowd (Rng (\<lambda>k. k) 0)) =
     [Infected, Recovered, Susceptible, Infected, Recovered, Susceptible,
      Infected, Infected, Recovered] \<and>
   map source (infection_serial_calls cfg2 [0..<length crowd] crowd (Rng (\<lambda>k. k) 0)) =
     [0, 0, 0, 1, 1, 1, 3, 3, 3]"
  by code_simp

section \<open>The infection phase when every attempt succeeds\<close>

text \<open>
  With an infection probability of 1.0 every call of \<^verbatim>\<open>try_infect\<close> on a Susceptible
  individual infects it. Then the loop of \<^verbatim>\<open>simulate_parallel\<close> and the loop of
  \<^verbatim>\<open>simulate_serial\<close> both compute the outbreak of the population they start from, and take
  one draw for each individual they infect.
\<close>

lemma after_draws_0: "after_draws g 0 = g"
  by (simp add: after_draws_def)

lemma after_draws_add: "after_draws (after_draws g a) b = after_draws g (a + b)"
  by (simp add: after_draws_def add.assoc)

lemma try_infect_certain:
  assumes "\<forall>r. infects cfg r"
  shows "try_infect cfg p g =
           (if infectionState p = Susceptible then (infect p, after_draws g 1) else (p, g))"
  using assms by (simp add: try_infect_def next_draw_def after_draws_def)

lemma scan_parallel_certain:
  assumes "\<forall>r. infects cfg r" and "\<not> is_infected current_individual"
  shows "scan_parallel cfg index scanned current_individual individuals g =
           (if infectionState current_individual = Susceptible \<and>
               (\<exists>a\<in>set scanned. is_infected (individuals ! a) \<and>
                  get_location (individuals ! a) = get_location current_individual)
            then (individuals[index := infect current_individual], after_draws g 1)
            else (individuals, g))"
proof (induction scanned)
  case Nil
  then show ?case by simp
next
  case (Cons a rest)
  show ?case
  proof (cases "is_infected (individuals ! a) \<and>
                get_location current_individual = get_location (individuals ! a)")
    case False
    then show ?thesis using Cons by auto
  next
    case True
    show ?thesis
    proof (cases "infectionState current_individual = Susceptible")
      case s: True
      then show ?thesis
        using True by (simp add: try_infect_certain [OF assms(1)] is_infected_infect)
    next
      case ns: False
      then show ?thesis
        using True Cons assms(2) by (simp add: try_infect_certain [OF assms(1)])
    qed
  qed
qed

lemma length_outbreak: "length (outbreak snapshot) = length snapshot"
  by (simp add: outbreak_def)

lemma nth_outbreak:
  "j < length snapshot \<Longrightarrow>
   outbreak snapshot ! j =
     (if exposed snapshot (snapshot ! j) then infect (snapshot ! j) else snapshot ! j)"
  by (simp add: outbreak_def)

lemma mix_nth:
  assumes "length done = length todo" and "a < length todo"
  shows "(take k done @ drop k todo) ! a = (if a < k then done ! a else todo ! a)"
  using assms by (auto simp: nth_append min_def)

lemma mix_step:
  assumes "length done = length todo" and "k < length todo"
  shows "(take k done @ drop k todo)[k := done ! k] = take (Suc k) done @ drop (Suc k) todo"
proof -
  have "drop k todo = todo ! k # drop (Suc k) todo"
    using assms(2) by (simp add: Cons_nth_drop_Suc)
  moreover have "take (Suc k) done = take k done @ [done ! k]"
    using assms by (simp add: take_Suc_conv_app_nth)
  moreover have "length (take k done) = k" using assms by simp
  ultimately show ?thesis by (simp add: list_update_append)
qed

lemma mix_same:
  assumes "length done = length todo" and "k < length todo" and "done ! k = todo ! k"
  shows "take k done @ drop k todo = take (Suc k) done @ drop (Suc k) todo"
proof -
  have "(take k done @ drop k todo)[k := done ! k] = take k done @ drop k todo"
    using assms by (intro list_update_same_conv [THEN iffD2]) (simp_all add: mix_nth)
  then show ?thesis using mix_step [OF assms(1,2)] by simp
qed

lemma get_location_infect: "get_location (infect p) = get_location p"
  by (simp add: get_location_def infect_def)

lemma infected_not_exposed: "is_infected p \<Longrightarrow> \<not> exposed snapshot p"
  by (simp add: exposed_def is_infected_def)

lemma infected_seen:
  assumes "k \<le> length snapshot"
  shows "(\<exists>a\<in>set [0..<length snapshot].
            is_infected ((take k (outbreak snapshot) @ drop k snapshot) ! a) \<and>
            get_location ((take k (outbreak snapshot) @ drop k snapshot) ! a) = l) \<longleftrightarrow>
         (\<exists>q\<in>set snapshot. is_infected q \<and> get_location q = l)"
proof
  assume "\<exists>a\<in>set [0..<length snapshot].
            is_infected ((take k (outbreak snapshot) @ drop k snapshot) ! a) \<and>
            get_location ((take k (outbreak snapshot) @ drop k snapshot) ! a) = l"
  then obtain a where a: "a < length snapshot"
    and inf: "is_infected ((take k (outbreak snapshot) @ drop k snapshot) ! a)"
    and loc: "get_location ((take k (outbreak snapshot) @ drop k snapshot) ! a) = l"
    by auto
  have nth: "(take k (outbreak snapshot) @ drop k snapshot) ! a =
             (if a < k then outbreak snapshot ! a else snapshot ! a)"
    using a by (intro mix_nth) (simp_all add: length_outbreak)
  show "\<exists>q\<in>set snapshot. is_infected q \<and> get_location q = l"
  proof (cases "a < k \<and> exposed snapshot (snapshot ! a)")
    case True
    then have "get_location (snapshot ! a) = l"
      using nth loc a by (simp add: nth_outbreak get_location_infect)
    then show ?thesis using True by (auto simp: exposed_def)
  next
    case False
    then have "(take k (outbreak snapshot) @ drop k snapshot) ! a = snapshot ! a"
      using nth a by (auto simp: nth_outbreak)
    then have "is_infected (snapshot ! a) \<and> get_location (snapshot ! a) = l"
      using inf loc by simp
    then show ?thesis using nth_mem [OF a] by blast
  qed
next
  assume "\<exists>q\<in>set snapshot. is_infected q \<and> get_location q = l"
  then obtain a where a: "a < length snapshot" and inf: "is_infected (snapshot ! a)"
    and loc: "get_location (snapshot ! a) = l"
    by (auto simp: in_set_conv_nth)
  have "(take k (outbreak snapshot) @ drop k snapshot) ! a =
             (if a < k then outbreak snapshot ! a else snapshot ! a)"
    using a by (intro mix_nth) (simp_all add: length_outbreak)
  then have "(take k (outbreak snapshot) @ drop k snapshot) ! a = snapshot ! a"
    using a infected_not_exposed [OF inf] by (simp add: nth_outbreak)
  then have "is_infected ((take k (outbreak snapshot) @ drop k snapshot) ! a) \<and>
            get_location ((take k (outbreak snapshot) @ drop k snapshot) ! a) = l"
    using inf loc by simp
  moreover have "a \<in> set [0..<length snapshot]" using a by simp
  ultimately show "\<exists>a\<in>set [0..<length snapshot].
            is_infected ((take k (outbreak snapshot) @ drop k snapshot) ! a) \<and>
            get_location ((take k (outbreak snapshot) @ drop k snapshot) ! a) = l"
    by blast
qed

lemma infection_parallel_certain_upt:
  assumes "\<forall>r. infects cfg r" and "k \<le> length snapshot"
  shows "infection_parallel cfg (int (length snapshot)) [k..<length snapshot]
           (take k (outbreak snapshot) @ drop k snapshot) g =
         (outbreak snapshot, after_draws g (length (filter (exposed snapshot) (drop k snapshot))))"
  using assms(2)
proof (induction "length snapshot - k" arbitrary: k g)
  case 0
  then show ?case by (simp add: length_outbreak after_draws_0)
next
  case (Suc d)
  then have lt: "k < length snapshot" by simp
  let ?L = "take k (outbreak snapshot) @ drop k snapshot"
  let ?L' = "take (Suc k) (outbreak snapshot) @ drop (Suc k) snapshot"
  have upt: "[k..<length snapshot] = k # [Suc k..<length snapshot]"
    using lt by (simp add: upt_conv_Cons)
  have Lk: "?L ! k = snapshot ! k"
    using lt by (simp add: mix_nth length_outbreak)
  have dk: "drop k snapshot = snapshot ! k # drop (Suc k) snapshot"
    using lt by (simp add: Cons_nth_drop_Suc)
  have IH: "\<And>g. infection_parallel cfg (int (length snapshot)) [Suc k..<length snapshot] ?L' g =
         (outbreak snapshot,
          after_draws g (length (filter (exposed snapshot) (drop (Suc k) snapshot))))"
    using Suc.hyps(2) lt by (intro Suc.hyps(1)) simp_all
  show ?case
  proof (cases "exposed snapshot (snapshot ! k)")
    case True
    then have ninf: "\<not> is_infected (snapshot ! k)"
      by (auto simp: exposed_def is_infected_def)
    have seen: "\<exists>a\<in>set [0..<length snapshot]. is_infected (?L ! a) \<and>
                  get_location (?L ! a) = get_location (snapshot ! k)"
      using True infected_seen [of k snapshot "get_location (snapshot ! k)"] lt
      by (simp add: exposed_def)
    have "outbreak snapshot ! k = infect (snapshot ! k)"
      using True lt by (simp add: nth_outbreak)
    then have step: "?L[k := infect (snapshot ! k)] = ?L'"
      using mix_step [of "outbreak snapshot" snapshot k] lt by (simp add: length_outbreak)
    have sc: "scan_parallel cfg k [0..<nat (int (length snapshot))] (snapshot ! k) ?L g =
                (?L', after_draws g 1)"
      using True seen step
      by (simp add: scan_parallel_certain [OF assms(1) ninf] exposed_def)
    have cnt: "length (filter (exposed snapshot) (drop k snapshot)) =
               1 + length (filter (exposed snapshot) (drop (Suc k) snapshot))"
      using True by (subst dk) simp
    have "infection_parallel cfg (int (length snapshot)) (k # [Suc k..<length snapshot]) ?L g =
          infection_parallel cfg (int (length snapshot)) [Suc k..<length snapshot] ?L'
            (after_draws g 1)"
      using ninf Lk sc by simp
    also have "\<dots> = (outbreak snapshot, after_draws (after_draws g 1)
                  (length (filter (exposed snapshot) (drop (Suc k) snapshot))))"
      by (rule IH)
    finally show ?thesis unfolding upt cnt by (simp add: after_draws_add)
  next
    case False
    have same: "outbreak snapshot ! k = snapshot ! k"
      using False lt by (simp add: nth_outbreak)
    have L': "?L = ?L'"
      using lt same by (intro mix_same) (simp_all add: length_outbreak)
    have cnt0: "length (filter (exposed snapshot) (drop k snapshot)) =
               length (filter (exposed snapshot) (drop (Suc k) snapshot))"
      using False by (subst dk) simp
    show ?thesis
    proof (cases "is_infected (snapshot ! k)")
      case inf: True
      have "infection_parallel cfg (int (length snapshot)) (k # [Suc k..<length snapshot]) ?L g =
            infection_parallel cfg (int (length snapshot)) [Suc k..<length snapshot] ?L g"
        using inf Lk by simp
      also have "\<dots> = (outbreak snapshot,
          after_draws g (length (filter (exposed snapshot) (drop (Suc k) snapshot))))"
        using IH [of g] L' by simp
      finally show ?thesis unfolding upt cnt0 .
    next
      case ninf: False
      have noseen: "\<not> (infectionState (snapshot ! k) = Susceptible \<and>
                  (\<exists>a\<in>set [0..<length snapshot]. is_infected (?L ! a) \<and>
                  get_location (?L ! a) = get_location (snapshot ! k)))"
        using False infected_seen [of k snapshot "get_location (snapshot ! k)"] lt
        by (simp add: exposed_def)
      have sc: "scan_parallel cfg k [0..<nat (int (length snapshot))] (snapshot ! k) ?L g = (?L, g)"
        unfolding nat_int scan_parallel_certain [OF assms(1) ninf]
        using noseen by (rule if_not_P)
      have "infection_parallel cfg (int (length snapshot)) (k # [Suc k..<length snapshot]) ?L g =
            infection_parallel cfg (int (length snapshot)) [Suc k..<length snapshot] ?L g"
        using ninf Lk sc by simp
      also have "\<dots> = (outbreak snapshot,
          after_draws g (length (filter (exposed snapshot) (drop (Suc k) snapshot))))"
        using IH [of g] L' by simp
      finally show ?thesis unfolding upt cnt0 .
    qed
  qed
qed

lemma infection_parallel_certain:
  assumes "\<forall>r. infects cfg r"
  shows "infection_parallel cfg (int (length snapshot)) [0..<length snapshot] snapshot g =
         (outbreak snapshot, after_draws g (length (filter (exposed snapshot) snapshot)))"
  using infection_parallel_certain_upt [OF assms, of 0 snapshot g] by simp

lemma exposed_reached:
  "exposed snapshot p = (\<exists>q\<in>set snapshot. is_infected q \<and> reached q p)"
  by (auto simp: exposed_def reached_def)

lemma not_reached_infect: "\<not> reached q (infect p)"
  by (simp add: reached_def infect_def)

lemma not_reached_infected: "is_infected p \<Longrightarrow> \<not> reached q p"
  by (simp add: reached_def is_infected_def)

lemma spread_serial_certain_upt:
  assumes "\<forall>r. infects cfg r" and "is_infected (individuals ! i)" and "i < length individuals"
    and "k \<le> length individuals"
  shows "spread_serial cfg i [k..<length individuals]
           (take k (map (\<lambda>p. if reached (individuals ! i) p then infect p else p) individuals) @
            drop k individuals) g =
         (map (\<lambda>p. if reached (individuals ! i) p then infect p else p) individuals,
          after_draws g (length (filter (reached (individuals ! i)) (drop k individuals))))"
  using assms(4)
proof (induction "length individuals - k" arbitrary: k g)
  case 0
  then show ?case by (simp add: after_draws_0)
next
  case (Suc d)
  then have lt: "k < length individuals" by simp
  let ?f = "\<lambda>p. if reached (individuals ! i) p then infect p else p"
  let ?D = "map ?f individuals"
  let ?M = "take k ?D @ drop k individuals"
  let ?M' = "take (Suc k) ?D @ drop (Suc k) individuals"
  have upt: "[k..<length individuals] = k # [Suc k..<length individuals]"
    using lt by (simp add: upt_conv_Cons)
  have lenD: "length ?D = length individuals" by simp
  have Mk: "?M ! k = individuals ! k"
    using lt mix_nth [OF lenD lt, of k] by simp
  have fi: "?f (individuals ! i) = individuals ! i"
    using assms(2) by (simp add: not_reached_infected)
  have Mi: "?M ! i = individuals ! i"
    using mix_nth [OF lenD assms(3), of k] assms(3) fi by simp
  have dk: "drop k individuals = individuals ! k # drop (Suc k) individuals"
    using lt by (simp add: Cons_nth_drop_Suc)
  have step: "?M[k := ?f (individuals ! k)] = ?M'"
    using mix_step [OF lenD lt] lt by simp
  have same: "?f (individuals ! k) = individuals ! k \<Longrightarrow> ?M = ?M'"
    using mix_same [OF lenD lt] lt by simp
  have IH: "\<And>g. spread_serial cfg i [Suc k..<length individuals] ?M' g =
         (?D, after_draws g (length (filter (reached (individuals ! i))
                                       (drop (Suc k) individuals))))"
    using Suc.hyps(2) lt by (intro Suc.hyps(1)) simp_all
  show ?case
  proof (cases "reached (individuals ! i) (individuals ! k)")
    case True
    then have sus: "infectionState (individuals ! k) = Susceptible"
      and loc: "get_location (individuals ! i) = get_location (individuals ! k)"
      by (simp_all add: reached_def)
    have ik: "i \<noteq> k" using True assms(2) not_reached_infected by blast
    have cnt: "length (filter (reached (individuals ! i)) (drop k individuals)) =
               1 + length (filter (reached (individuals ! i)) (drop (Suc k) individuals))"
      using True by (subst dk) simp
    have "?M[k := infect (individuals ! k)] = ?M'"
      using step True by simp
    then have "spread_serial cfg i (k # [Suc k..<length individuals]) ?M g =
          spread_serial cfg i [Suc k..<length individuals] ?M' (after_draws g 1)"
      using ik loc sus by (simp add: Mk Mi try_infect_certain [OF assms(1)])
    also have "\<dots> = (?D, after_draws (after_draws g 1)
                  (length (filter (reached (individuals ! i)) (drop (Suc k) individuals))))"
      by (rule IH)
    finally show ?thesis unfolding upt cnt by (simp add: after_draws_add)
  next
    case False
    have cnt: "length (filter (reached (individuals ! i)) (drop k individuals)) =
               length (filter (reached (individuals ! i)) (drop (Suc k) individuals))"
      using False by (subst dk) simp
    have M': "?M = ?M'" using False by (intro same) simp
    have "spread_serial cfg i (k # [Suc k..<length individuals]) ?M g =
          spread_serial cfg i [Suc k..<length individuals] ?M g"
    proof (cases "i \<noteq> k \<and> get_location (individuals ! i) = get_location (individuals ! k)")
      case True
      then have ns: "infectionState (individuals ! k) \<noteq> Susceptible"
        using False by (simp add: reached_def)
      have "?M[k := individuals ! k] = ?M"
        using Mk by (metis list_update_id)
      then show ?thesis
        using True ns by (simp add: Mk Mi try_infect_certain [OF assms(1)])
    next
      case False
      then show ?thesis by (auto simp: Mk Mi)
    qed
    also have "\<dots> = (?D, after_draws g
                  (length (filter (reached (individuals ! i)) (drop (Suc k) individuals))))"
      using IH [of g] M' by simp
    finally show ?thesis unfolding upt cnt .
  qed
qed

lemma spread_serial_certain:
  assumes "\<forall>r. infects cfg r" and "is_infected (individuals ! i)" and "i < length individuals"
  shows "spread_serial cfg i [0..<length individuals] individuals g =
         (map (\<lambda>p. if reached (individuals ! i) p then infect p else p) individuals,
          after_draws g (length (filter (reached (individuals ! i)) individuals)))"
  using spread_serial_certain_upt [OF assms, of 0 g] by simp

lemma exposed_take_Suc:
  assumes "k < length snapshot"
  shows "exposed (take (Suc k) snapshot) p =
         (exposed (take k snapshot) p \<or>
          (is_infected (snapshot ! k) \<and> reached (snapshot ! k) p))"
  using assms by (auto simp: exposed_reached take_Suc_conv_app_nth)

lemma exposed_take_mono: "exposed (take k snapshot) p \<Longrightarrow> exposed snapshot p"
  by (meson exposed_reached in_set_takeD)

lemma filter_split_count:
  assumes "\<And>x. x \<in> set xs \<Longrightarrow> C x = (A x \<or> B x)"
    and "\<And>x. x \<in> set xs \<Longrightarrow> \<not> (A x \<and> B x)"
  shows "length (filter C xs) = length (filter A xs) + length (filter B xs)"
  using assms by (induction xs) auto

lemma infection_serial_certain_upt:
  assumes "\<forall>r. infects cfg r" and "k \<le> length snapshot"
  shows "infection_serial cfg [k..<length snapshot]
           (map (\<lambda>p. if exposed (take k snapshot) p then infect p else p) snapshot) g =
         (outbreak snapshot,
          after_draws g (length (filter (\<lambda>p. exposed snapshot p \<and> \<not> exposed (take k snapshot) p)
                                   snapshot)))"
  using assms(2)
proof (induction "length snapshot - k" arbitrary: k g)
  case 0
  then show ?case by (simp add: outbreak_def after_draws_0)
next
  case (Suc d)
  then have lt: "k < length snapshot" by simp
  let ?F = "\<lambda>k p. if exposed (take k snapshot) p then infect p else p"
  let ?rest = "\<lambda>k. length (filter (\<lambda>p. exposed snapshot p \<and> \<not> exposed (take k snapshot) p) snapshot)"
  define L where "L = map (?F k) snapshot"
  define L' where "L' = map (?F (Suc k)) snapshot"
  define R where "R = [Suc k..<length snapshot]"
  have upt: "[k..<length snapshot] = k # R"
    using lt by (simp add: upt_conv_Cons R_def)
  have Lk: "L ! k = ?F k (snapshot ! k)" using lt by (simp add: L_def)
  have klen: "k < length L" using lt by (simp add: L_def)
  have IH: "\<And>g. infection_serial cfg R L' g = (outbreak snapshot, after_draws g (?rest (Suc k)))"
    unfolding R_def L'_def using Suc.hyps(2) lt by (intro Suc.hyps(1)) simp_all
  have skip: "\<not> is_infected (L ! k) \<Longrightarrow>
              infection_serial cfg (k # R) L g = infection_serial cfg R L g"
    by simp
  have enter: "is_infected (L ! k) \<Longrightarrow>
              infection_serial cfg (k # R) L g =
              infection_serial cfg R
                (map (\<lambda>p. if reached (L ! k) p then infect p else p) L)
                (after_draws g (length (filter (reached (L ! k)) L)))"
    using spread_serial_certain [OF assms(1) _ klen, of g] by (simp add: Let_def)
  have goal: "infection_serial cfg (k # R) L g = (outbreak snapshot, after_draws g (?rest k))"
  proof (cases "is_infected (snapshot ! k)")
    case True
    then have Lk': "L ! k = snapshot ! k"
      using Lk by (simp add: infected_not_exposed)
    have inf: "is_infected (L ! k)" using True Lk' by simp
    have pointwise: "\<And>p. (if reached (snapshot ! k) (?F k p) then infect (?F k p) else ?F k p) =
                          ?F (Suc k) p"
      using True by (auto simp: exposed_take_Suc [OF lt] not_reached_infect)
    have "map (\<lambda>p. if reached (snapshot ! k) p then infect p else p) L =
          map (\<lambda>p. if reached (snapshot ! k) (?F k p) then infect (?F k p) else ?F k p) snapshot"
      unfolding L_def map_map comp_def ..
    then have arr: "map (\<lambda>p. if reached (L ! k) p then infect p else p) L = L'"
      unfolding Lk' L'_def pointwise .
    have "filter (reached (snapshot ! k)) L =
          map (?F k) (filter (\<lambda>p. reached (snapshot ! k) (?F k p)) snapshot)"
      unfolding L_def filter_map comp_def ..
    then have c1: "length (filter (reached (L ! k)) L) =
          length (filter (\<lambda>p. reached (snapshot ! k) (?F k p)) snapshot)"
      unfolding Lk' by simp
    have "filter (\<lambda>p. reached (snapshot ! k) (?F k p)) snapshot =
          filter (\<lambda>p. exposed (take (Suc k) snapshot) p \<and> \<not> exposed (take k snapshot) p) snapshot"
      using True
      by (intro filter_cong) (auto simp: exposed_take_Suc [OF lt] not_reached_infect)
    then have c2: "length (filter (\<lambda>p. reached (snapshot ! k) (?F k p)) snapshot) =
          length (filter (\<lambda>p. exposed (take (Suc k) snapshot) p \<and> \<not> exposed (take k snapshot) p)
                    snapshot)"
      by simp
    have c3: "?rest k =
          length (filter (\<lambda>p. exposed (take (Suc k) snapshot) p \<and> \<not> exposed (take k snapshot) p)
                    snapshot) + ?rest (Suc k)"
    proof (rule filter_split_count)
      fix x
      have m1: "exposed (take k snapshot) x \<Longrightarrow> exposed (take (Suc k) snapshot) x"
        by (simp add: exposed_take_Suc [OF lt])
      have m2: "exposed (take (Suc k) snapshot) x \<Longrightarrow> exposed snapshot x"
        by (rule exposed_take_mono)
      show "(exposed snapshot x \<and> \<not> exposed (take k snapshot) x) =
            ((exposed (take (Suc k) snapshot) x \<and> \<not> exposed (take k snapshot) x) \<or>
             (exposed snapshot x \<and> \<not> exposed (take (Suc k) snapshot) x))"
        using m1 m2 by blast
      show "\<not> ((exposed (take (Suc k) snapshot) x \<and> \<not> exposed (take k snapshot) x) \<and>
                (exposed snapshot x \<and> \<not> exposed (take (Suc k) snapshot) x))"
        by blast
    qed
    have "infection_serial cfg (k # R) L g =
          infection_serial cfg R L' (after_draws g (length (filter (reached (L ! k)) L)))"
      using enter [OF inf] unfolding arr .
    also have "\<dots> = (outbreak snapshot,
          after_draws (after_draws g (length (filter (reached (L ! k)) L))) (?rest (Suc k)))"
      by (rule IH)
    also have "\<dots> = (outbreak snapshot, after_draws g (?rest k))"
      unfolding after_draws_add c1 c2 c3 ..
    finally show ?thesis .
  next
    case False
    have same: "\<And>p. exposed (take (Suc k) snapshot) p = exposed (take k snapshot) p"
      using False by (simp add: exposed_take_Suc [OF lt])
    have arr: "L' = L" unfolding L'_def L_def same ..
    have cnt: "?rest (Suc k) = ?rest k" unfolding same ..
    show ?thesis
    proof (cases "exposed (take k snapshot) (snapshot ! k)")
      case ex: True
      then have Lk': "L ! k = infect (snapshot ! k)" using Lk by simp
      have inf: "is_infected (L ! k)" by (simp add: Lk' is_infected_infect)
      have none: "\<And>x. x \<in> set L \<Longrightarrow> \<not> reached (L ! k) x"
      proof
        fix x assume xl: "x \<in> set L" and r: "reached (L ! k) x"
        have "x \<in> ?F k ` set snapshot" using xl unfolding L_def set_map .
        then obtain p where x: "x = ?F k p" by (rule imageE)
        have np: "\<not> exposed (take k snapshot) p"
          using r x not_reached_infect by auto
        then have rp: "reached (snapshot ! k) p"
          using r x by (simp add: Lk' reached_def get_location_infect)
        obtain q where q: "q \<in> set (take k snapshot)" "is_infected q"
          "get_location q = get_location (snapshot ! k)"
          using ex by (auto simp: exposed_def)
        have "exposed (take k snapshot) p"
          using q rp by (auto simp: exposed_def reached_def)
        then show False using np by simp
      qed
      have f0: "filter (reached (L ! k)) L = []"
        using none by (simp only: filter_empty_conv) blast
      have "map (\<lambda>p. if reached (L ! k) p then infect p else p) L = map (\<lambda>p. p) L"
        using none by (intro map_cong) auto
      then have m0: "map (\<lambda>p. if reached (L ! k) p then infect p else p) L = L"
        by simp
      have "infection_serial cfg (k # R) L g = infection_serial cfg R L' g"
        using enter [OF inf] unfolding m0 f0 arr by (simp add: after_draws_0)
      also have "\<dots> = (outbreak snapshot, after_draws g (?rest (Suc k)))"
        by (rule IH)
      finally show ?thesis unfolding cnt .
    next
      case nex: False
      then have "L ! k = snapshot ! k" using Lk by simp
      then have "infection_serial cfg (k # R) L g = infection_serial cfg R L' g"
        using False skip unfolding arr by simp
      also have "\<dots> = (outbreak snapshot, after_draws g (?rest (Suc k)))"
        by (rule IH)
      finally show ?thesis unfolding cnt .
    qed
  qed
  then show ?case unfolding upt L_def .
qed

lemma infection_serial_certain:
  assumes "\<forall>r. infects cfg r"
  shows "infection_serial cfg [0..<length snapshot] snapshot g =
         (outbreak snapshot, after_draws g (length (filter (exposed snapshot) snapshot)))"
proof -
  have none: "\<And>p. \<not> exposed (take 0 snapshot) p" by (simp add: exposed_def)
  have "map (\<lambda>p. if exposed (take 0 snapshot) p then infect p else p) snapshot = snapshot"
    using none by (simp add: map_idI)
  moreover have "filter (\<lambda>p. exposed snapshot p \<and> \<not> exposed (take 0 snapshot) p) snapshot =
                 filter (exposed snapshot) snapshot"
    using none by simp
  ultimately show ?thesis
    using infection_serial_certain_upt [OF assms, of 0 snapshot g] by simp
qed

lemma epoch_parallel_eq_serial:
  assumes "\<forall>r. infects cfg r" and "\<forall>p\<in>set individuals. hit_if_infected p"
  shows "epoch_parallel cfg nlm (int (length individuals)) (individuals, g, stats) =
         epoch_serial cfg nlm (individuals, g, stats)"
proof -
  define mv where "mv = movement_serial nlm individuals g"
  have len: "length (fst mv) = length individuals"
    by (simp add: mv_def movement_serial_length)
  define advanced where "advanced = map (advance_epoch cfg) (outbreak (fst mv))"
  define g' where "g' = after_draws (snd mv) (length (filter (exposed (fst mv)) (fst mv)))"
  have par: "infection_parallel cfg (int (length individuals)) [0..<length individuals]
               (fst mv) (snd mv) = (outbreak (fst mv), g')"
    using infection_parallel_certain [OF assms(1), of "fst mv" "snd mv"]
    by (simp add: len g'_def)
  have ser: "infection_serial cfg [0..<length individuals] (fst mv) (snd mv) =
               (outbreak (fst mv), g')"
    using infection_serial_certain [OF assms(1), of "fst mv" "snd mv"]
    by (simp add: len g'_def)
  have s: "epoch_serial cfg nlm (individuals, g, stats) =
        (advanced, g', stats @ [(int (length (filter is_hit advanced)),
                                  int (length (filter is_infected advanced)))])"
    by (simp add: epoch_serial_unfold Let_def mv_def [symmetric] ser advanced_def)
  have p: "epoch_parallel cfg nlm (int (length individuals)) (individuals, g, stats) =
        (advanced, g', stats @ [(int (length (filter (\<lambda>p. is_infected p \<or> is_hit p) advanced)),
                                  int (length (filter is_infected advanced)))])"
    by (simp add: epoch_parallel_unfold Let_def mv_def [symmetric] par advanced_def)
  have "list_all2 evolves individuals advanced"
    using epoch_serial_evolves [of individuals cfg nlm g stats] by (simp add: s)
  then have "\<forall>p\<in>set advanced. hit_if_infected p"
    using assms(2) by (rule evolves_all_hit_if_infected)
  then have "filter (\<lambda>p. is_infected p \<or> is_hit p) advanced = filter is_hit advanced"
    by (rule infected_or_hit_eq_hit)
  then show ?thesis unfolding s p by simp
qed

lemma epoch_serial_keeps:
  assumes "\<forall>p\<in>set (fst st). hit_if_infected p"
  shows "(\<forall>p\<in>set (fst (epoch_serial cfg nlm st)). hit_if_infected p) \<and>
         length (fst (epoch_serial cfg nlm st)) = length (fst st)"
proof -
  obtain individuals g stats where st: "st = (individuals, g, stats)" by (cases st) auto
  have ev: "list_all2 evolves individuals (fst (epoch_serial cfg nlm (individuals, g, stats)))"
    by (rule epoch_serial_evolves)
  moreover have "\<forall>p\<in>set individuals. hit_if_infected p" using assms by (simp add: st)
  ultimately have "\<forall>p\<in>set (fst (epoch_serial cfg nlm (individuals, g, stats))). hit_if_infected p"
    by (rule evolves_all_hit_if_infected)
  moreover have "length (fst (epoch_serial cfg nlm (individuals, g, stats))) = length individuals"
    using list_all2_lengthD [OF ev] by simp
  ultimately show ?thesis by (simp add: st)
qed

section \<open>The parallel loops in any order\<close>

text \<open>
  What the loops of \<^verbatim>\<open>simulate_parallel\<close> compute when their iterations run in an order
  other than the index order. The advance loop computes the same population and the
  same counts in every order. So does the infection loop when every attempt succeeds,
  and the movement loop when no individual can move; otherwise the movement loop hands
  the draws to the individuals in the order in which it visits them.
\<close>

subsection \<open>A loop that has visited some indices\<close>

lemma length_partly: "length (partly f visited individuals) = length individuals"
  by (simp add: partly_def)

lemma nth_partly:
  "k < length individuals \<Longrightarrow>
   partly f visited individuals ! k = (if k \<in> visited then f (individuals ! k) else individuals ! k)"
  by (simp add: partly_def)

lemma partly_empty: "partly f {} individuals = individuals"
  by (simp add: partly_def map_nth)

lemma partly_all:
  assumes "{0..<length individuals} \<subseteq> visited"
  shows "partly f visited individuals = map f individuals"
proof (rule nth_equalityI)
  show "length (partly f visited individuals) = length (map f individuals)"
    by (simp add: length_partly)
next
  fix k assume "k < length (partly f visited individuals)"
  then have k: "k < length individuals" by (simp add: length_partly)
  then have "k \<in> visited" using assms by auto
  then show "partly f visited individuals ! k = map f individuals ! k"
    using k by (simp add: nth_partly)
qed

lemma partly_visit:
  assumes "k < length individuals"
  shows "(partly f visited individuals)[k := f (individuals ! k)] =
         partly f (insert k visited) individuals"
proof (rule nth_equalityI)
  show "length ((partly f visited individuals)[k := f (individuals ! k)]) =
        length (partly f (insert k visited) individuals)"
    by (simp add: length_partly)
next
  fix a assume "a < length ((partly f visited individuals)[k := f (individuals ! k)])"
  then have a: "a < length individuals" by (simp add: length_partly)
  show "(partly f visited individuals)[k := f (individuals ! k)] ! a =
        partly f (insert k visited) individuals ! a"
    using a assms by (cases "a = k") (simp_all add: nth_partly length_partly)
qed

lemma partly_visit_same:
  assumes "k < length individuals" and "f (individuals ! k) = individuals ! k"
  shows "partly f (insert k visited) individuals = partly f visited individuals"
proof (rule nth_equalityI)
  show "length (partly f (insert k visited) individuals) = length (partly f visited individuals)"
    by (simp add: length_partly)
next
  fix a assume "a < length (partly f (insert k visited) individuals)"
  then have a: "a < length individuals" by (simp add: length_partly)
  show "partly f (insert k visited) individuals ! a = partly f visited individuals ! a"
    using a assms by (cases "a = k") (simp_all add: nth_partly)
qed

lemma count_by_index:
  "length (filter P xs) = length (filter (\<lambda>k. P (xs ! k)) [0..<length xs])"
proof -
  have "filter P (map (nth xs) [0..<length xs]) =
        map (nth xs) (filter (P \<circ> nth xs) [0..<length xs])"
    by (rule filter_map)
  then have "length (filter P xs) = length (filter (P \<circ> nth xs) [0..<length xs])"
    by (simp add: map_nth)
  then show ?thesis by (simp add: comp_def)
qed

lemma count_any_order:
  assumes "distinct order" and "set order = {0..<length xs}"
  shows "length (filter (\<lambda>k. P (xs ! k)) order) = length (filter P xs)"
proof -
  have "length (filter (\<lambda>k. P (xs ! k)) order) = card ({k. P (xs ! k)} \<inter> set order)"
    using assms(1) by (simp add: distinct_length_filter)
  also have "\<dots> = card ({k. P (xs ! k)} \<inter> set [0..<length xs])"
    using assms(2) by simp
  also have "\<dots> = length (filter (\<lambda>k. P (xs ! k)) [0..<length xs])"
    by (simp add: distinct_length_filter)
  finally show ?thesis by (simp add: count_by_index [of P xs])
qed

subsection \<open>Advance in any order\<close>

lemma advance_parallel_any_order:
  assumes "distinct order" and "set order \<subseteq> {0..<length individuals}" and "set order \<inter> visited = {}"
  shows "advance_parallel cfg order (partly (advance_epoch cfg) visited individuals)
           hit_count infected_count =
         (partly (advance_epoch cfg) (visited \<union> set order) individuals,
          hit_count + int (length (filter (\<lambda>k. is_infected (advance_epoch cfg (individuals ! k)) \<or>
                                           is_hit (advance_epoch cfg (individuals ! k))) order)),
          infected_count + int (length (filter (\<lambda>k. is_infected (advance_epoch cfg (individuals ! k)))
                                           order)))"
  using assms
proof (induction order arbitrary: visited hit_count infected_count)
  case Nil
  then show ?case by simp
next
  case (Cons k rest)
  let ?P = "partly (advance_epoch cfg) visited individuals"
  have k: "k < length individuals" and kv: "k \<notin> visited" using Cons.prems by auto
  have Pk: "?P ! k = individuals ! k" using k kv by (simp add: nth_partly)
  have upd: "?P[k := advance_epoch cfg (individuals ! k)] =
             partly (advance_epoch cfg) (insert k visited) individuals"
    using k by (rule partly_visit)
  have IH: "\<And>h i. advance_parallel cfg rest
              (partly (advance_epoch cfg) (insert k visited) individuals) h i =
         (partly (advance_epoch cfg) (insert k visited \<union> set rest) individuals,
          h + int (length (filter (\<lambda>k. is_infected (advance_epoch cfg (individuals ! k)) \<or>
                                           is_hit (advance_epoch cfg (individuals ! k))) rest)),
          i + int (length (filter (\<lambda>k. is_infected (advance_epoch cfg (individuals ! k))) rest)))"
    using Cons.prems by (intro Cons.IH) auto
  have un: "insert k visited \<union> set rest = visited \<union> set (k # rest)" by auto
  show ?case
    by (simp add: Let_def Pk upd IH un del: Un_insert_left Un_insert_right)
qed

lemma advance_parallel_scheduled:
  assumes "distinct order" and "set order = {0..<length individuals}"
  shows "advance_parallel cfg order individuals 0 0 =
     (map (advance_epoch cfg) individuals,
      int (length (filter (\<lambda>p. is_infected p \<or> is_hit p) (map (advance_epoch cfg) individuals))),
      int (length (filter is_infected (map (advance_epoch cfg) individuals))))"
proof -
  let ?adv = "map (advance_epoch cfg) individuals"
  have len: "set order = {0..<length ?adv}" using assms(2) by simp
  have c1: "length (filter (\<lambda>k. is_infected (advance_epoch cfg (individuals ! k)) \<or>
                                 is_hit (advance_epoch cfg (individuals ! k))) order) =
            length (filter (\<lambda>p. is_infected p \<or> is_hit p) ?adv)"
  proof -
    have "length (filter (\<lambda>k. (\<lambda>p. is_infected p \<or> is_hit p) (?adv ! k)) order) =
          length (filter (\<lambda>p. is_infected p \<or> is_hit p) ?adv)"
      using assms(1) len by (rule count_any_order)
    moreover have "filter (\<lambda>k. (\<lambda>p. is_infected p \<or> is_hit p) (?adv ! k)) order =
          filter (\<lambda>k. is_infected (advance_epoch cfg (individuals ! k)) \<or>
                      is_hit (advance_epoch cfg (individuals ! k))) order"
      using assms(2) by (intro filter_cong) auto
    ultimately show ?thesis by simp
  qed
  have c2: "length (filter (\<lambda>k. is_infected (advance_epoch cfg (individuals ! k))) order) =
            length (filter is_infected ?adv)"
  proof -
    have "length (filter (\<lambda>k. is_infected (?adv ! k)) order) = length (filter is_infected ?adv)"
      using assms(1) len by (rule count_any_order)
    moreover have "filter (\<lambda>k. is_infected (?adv ! k)) order =
          filter (\<lambda>k. is_infected (advance_epoch cfg (individuals ! k))) order"
      using assms(2) by (intro filter_cong) auto
    ultimately show ?thesis by simp
  qed
  have "advance_parallel cfg order (partly (advance_epoch cfg) {} individuals) 0 0 =
         (partly (advance_epoch cfg) ({} \<union> set order) individuals,
          0 + int (length (filter (\<lambda>k. is_infected (advance_epoch cfg (individuals ! k)) \<or>
                                           is_hit (advance_epoch cfg (individuals ! k))) order)),
          0 + int (length (filter (\<lambda>k. is_infected (advance_epoch cfg (individuals ! k))) order)))"
    using assms by (intro advance_parallel_any_order) simp_all
  moreover have "partly (advance_epoch cfg) ({} \<union> set order) individuals = ?adv"
    using assms(2) by (intro partly_all) simp
  ultimately show ?thesis by (simp add: partly_empty c1 c2)
qed

subsection \<open>Infection in any order\<close>

lemma outbreak_partly:
  "outbreak snapshot =
   partly (\<lambda>p. if exposed snapshot p then infect p else p) {0..<length snapshot} snapshot"
  by (simp add: outbreak_def partly_all)

lemma infected_seen_partly:
  "(\<exists>a\<in>set [0..<length snapshot].
      is_infected (partly (\<lambda>p. if exposed snapshot p then infect p else p) visited snapshot ! a) \<and>
      get_location (partly (\<lambda>p. if exposed snapshot p then infect p else p) visited snapshot ! a) = l)
   \<longleftrightarrow> (\<exists>q\<in>set snapshot. is_infected q \<and> get_location q = l)"
proof
  let ?L = "partly (\<lambda>p. if exposed snapshot p then infect p else p) visited snapshot"
  assume "\<exists>a\<in>set [0..<length snapshot]. is_infected (?L ! a) \<and> get_location (?L ! a) = l"
  then obtain a where a: "a < length snapshot"
    and inf: "is_infected (?L ! a)" and loc: "get_location (?L ! a) = l"
    by auto
  show "\<exists>q\<in>set snapshot. is_infected q \<and> get_location q = l"
  proof (cases "a \<in> visited \<and> exposed snapshot (snapshot ! a)")
    case True
    then have "get_location (snapshot ! a) = l"
      using loc a by (simp add: nth_partly get_location_infect)
    then show ?thesis using True by (auto simp: exposed_def)
  next
    case False
    then have "?L ! a = snapshot ! a" using a by (auto simp: nth_partly)
    then have "is_infected (snapshot ! a) \<and> get_location (snapshot ! a) = l"
      using inf loc by simp
    then show ?thesis using nth_mem [OF a] by blast
  qed
next
  let ?L = "partly (\<lambda>p. if exposed snapshot p then infect p else p) visited snapshot"
  assume "\<exists>q\<in>set snapshot. is_infected q \<and> get_location q = l"
  then obtain a where a: "a < length snapshot" and inf: "is_infected (snapshot ! a)"
    and loc: "get_location (snapshot ! a) = l"
    by (auto simp: in_set_conv_nth)
  have "?L ! a = snapshot ! a"
    using a infected_not_exposed [OF inf] by (simp add: nth_partly)
  then have "is_infected (?L ! a) \<and> get_location (?L ! a) = l"
    using inf loc by simp
  moreover have "a \<in> set [0..<length snapshot]" using a by simp
  ultimately show "\<exists>a\<in>set [0..<length snapshot]. is_infected (?L ! a) \<and> get_location (?L ! a) = l"
    by blast
qed

lemma infection_parallel_any_order:
  assumes "\<forall>r. infects cfg r"
    and "distinct order" and "set order \<subseteq> {0..<length snapshot}" and "set order \<inter> visited = {}"
  shows "infection_parallel cfg (int (length snapshot)) order
           (partly (\<lambda>p. if exposed snapshot p then infect p else p) visited snapshot) g =
         (partly (\<lambda>p. if exposed snapshot p then infect p else p) (visited \<union> set order) snapshot,
          after_draws g (length (filter (\<lambda>k. exposed snapshot (snapshot ! k)) order)))"
  using assms(2-4)
proof (induction order arbitrary: visited g)
  case Nil
  then show ?case by (simp add: after_draws_0)
next
  case (Cons k rest)
  let ?F = "\<lambda>p. if exposed snapshot p then infect p else p"
  let ?L = "partly ?F visited snapshot"
  let ?L' = "partly ?F (insert k visited) snapshot"
  have k: "k < length snapshot" and kv: "k \<notin> visited" using Cons.prems by auto
  have Lk: "?L ! k = snapshot ! k" using k kv by (simp add: nth_partly)
  have un: "insert k visited \<union> set rest = visited \<union> set (k # rest)" by auto
  have IH: "\<And>g. infection_parallel cfg (int (length snapshot)) rest ?L' g =
         (partly ?F (visited \<union> set (k # rest)) snapshot,
          after_draws g (length (filter (\<lambda>k. exposed snapshot (snapshot ! k)) rest)))"
    unfolding un [symmetric] using Cons.prems by (intro Cons.IH) auto
  show ?case
  proof (cases "exposed snapshot (snapshot ! k)")
    case True
    then have ninf: "\<not> is_infected (snapshot ! k)"
      by (auto simp: exposed_def is_infected_def)
    have seen: "\<exists>a\<in>set [0..<length snapshot]. is_infected (?L ! a) \<and>
                  get_location (?L ! a) = get_location (snapshot ! k)"
      using True infected_seen_partly [of snapshot visited "get_location (snapshot ! k)"]
      by (simp add: exposed_def)
    have step: "?L[k := infect (snapshot ! k)] = ?L'"
      using partly_visit [OF k, of ?F visited] True by simp
    have sc: "scan_parallel cfg k [0..<nat (int (length snapshot))] (snapshot ! k) ?L g =
                (?L', after_draws g 1)"
      using True seen step
      by (simp add: scan_parallel_certain [OF assms(1) ninf] exposed_def)
    have cnt: "length (filter (\<lambda>k. exposed snapshot (snapshot ! k)) (k # rest)) =
               1 + length (filter (\<lambda>k. exposed snapshot (snapshot ! k)) rest)"
      using True by simp
    have "infection_parallel cfg (int (length snapshot)) (k # rest) ?L g =
          infection_parallel cfg (int (length snapshot)) rest ?L' (after_draws g 1)"
      using ninf Lk sc by simp
    also have "\<dots> = (partly ?F (visited \<union> set (k # rest)) snapshot,
          after_draws (after_draws g 1) (length (filter (\<lambda>k. exposed snapshot (snapshot ! k)) rest)))"
      by (rule IH)
    finally show ?thesis unfolding cnt by (simp add: after_draws_add)
  next
    case False
    have L': "?L' = ?L"
      using False by (intro partly_visit_same [OF k]) simp
    have cnt0: "length (filter (\<lambda>k. exposed snapshot (snapshot ! k)) (k # rest)) =
               length (filter (\<lambda>k. exposed snapshot (snapshot ! k)) rest)"
      using False by simp
    have "infection_parallel cfg (int (length snapshot)) (k # rest) ?L g =
          infection_parallel cfg (int (length snapshot)) rest ?L g"
    proof (cases "is_infected (snapshot ! k)")
      case True
      then show ?thesis using Lk by simp
    next
      case ninf: False
      have noseen: "\<not> (infectionState (snapshot ! k) = Susceptible \<and>
                  (\<exists>a\<in>set [0..<length snapshot]. is_infected (?L ! a) \<and>
                  get_location (?L ! a) = get_location (snapshot ! k)))"
        using False infected_seen_partly [of snapshot visited "get_location (snapshot ! k)"]
        by (simp add: exposed_def)
      have sc: "scan_parallel cfg k [0..<nat (int (length snapshot))] (snapshot ! k) ?L g = (?L, g)"
        unfolding nat_int scan_parallel_certain [OF assms(1) ninf]
        using noseen by (rule if_not_P)
      show ?thesis using ninf Lk sc by simp
    qed
    also have "\<dots> = (partly ?F (visited \<union> set (k # rest)) snapshot,
          after_draws g (length (filter (\<lambda>k. exposed snapshot (snapshot ! k)) rest)))"
      using IH [of g] L' by simp
    finally show ?thesis unfolding cnt0 .
  qed
qed

lemma infection_parallel_scheduled:
  assumes "\<forall>r. infects cfg r" and "distinct order" and "set order = {0..<length snapshot}"
  shows "infection_parallel cfg (int (length snapshot)) order snapshot g =
         (outbreak snapshot, after_draws g (length (filter (exposed snapshot) snapshot)))"
proof -
  let ?F = "\<lambda>p. if exposed snapshot p then infect p else p"
  have "infection_parallel cfg (int (length snapshot)) order (partly ?F {} snapshot) g =
         (partly ?F ({} \<union> set order) snapshot,
          after_draws g (length (filter (\<lambda>k. exposed snapshot (snapshot ! k)) order)))"
    using assms by (intro infection_parallel_any_order) simp_all
  moreover have "partly ?F ({} \<union> set order) snapshot = outbreak snapshot"
    using assms(3) by (simp add: outbreak_partly)
  moreover have "length (filter (\<lambda>k. exposed snapshot (snapshot ! k)) order) =
                 length (filter (exposed snapshot) snapshot)"
    using assms(2,3) by (rule count_any_order)
  ultimately show ?thesis by (simp add: partly_empty)
qed

subsection \<open>Orders of a team of workers\<close>

lemma count_list_filter:
  "count_list (filter P xs) x = (if P x then count_list xs x else 0)"
  by (induction xs) auto

lemma parallel_order_visits_each_once:
  assumes "0 < workers" and "parallel_order chunk_size max_index workers order"
  shows "visits_each_once max_index order"
proof -
  have proj: "\<And>w. w < workers \<Longrightarrow>
      filter (\<lambda>index. worker_of chunk_size workers index = w) order =
      filter (\<lambda>index. worker_of chunk_size workers index = w) [0..<nat max_index]"
    using assms(2) by (simp add: parallel_order_def worker_indices_def list_all_iff)
  have cls: "\<And>x. worker_of chunk_size workers x < workers"
    using assms(1) by (simp add: worker_of_def)
  have cnt: "\<And>x. count_list order x = count_list [0..<nat max_index] x"
  proof -
    fix x
    have "count_list (filter (\<lambda>index. worker_of chunk_size workers index = worker_of chunk_size workers x) order) x =
          count_list (filter (\<lambda>index. worker_of chunk_size workers index = worker_of chunk_size workers x)
             [0..<nat max_index]) x"
      using proj [OF cls [of x]] by simp
    then show "count_list order x = count_list [0..<nat max_index] x"
      by (simp add: count_list_filter)
  qed
  have set_eq: "set order = {0..<nat max_index}"
  proof -
    have "(x \<in> set order) = (x \<in> {0..<nat max_index})" for x
    proof -
      have "(count_list order x = 0) = (count_list [0..<nat max_index] x = 0)"
        by (simp only: cnt)
      then have "(x \<notin> set order) = (x \<notin> set [0..<nat max_index])"
        by (simp only: count_list_0_iff)
      then show ?thesis by simp
    qed
    then show ?thesis by (rule set_eqI)
  qed
  have "sum (count_list order) {0..<nat max_index} = length order"
    by (rule sum_count_set) (simp_all add: set_eq)
  moreover have "sum (count_list [0..<nat max_index]) {0..<nat max_index} =
                 length [0..<nat max_index]"
    by (rule sum_count_set) simp_all
  moreover have "count_list order = count_list [0..<nat max_index]"
    using cnt by (rule ext)
  ultimately have "length order = length [0..<nat max_index]"
    by simp
  then have "card (set order) = length order"
    unfolding set_eq by simp
  then have "distinct order" by (rule card_distinct)
  then show ?thesis using set_eq by (simp add: visits_each_once_def)
qed

lemma parallel_order_index:
  "parallel_order chunk_size max_index workers [0..<nat max_index]"
  by (simp add: parallel_order_def worker_indices_def list_all_iff)

subsection \<open>Movement in any order\<close>

lemma move_stays_put:
  assumes "stays_put nlm"
  shows "move (neighborhood_of nlm (get_location p)) p g =
         (p, after_draws g (if neighborhood_of nlm (get_location p) = [] then 0 else 1))"
proof (cases "neighborhood_of nlm (get_location p) = []")
  case True
  then show ?thesis by (simp add: move_def after_draws_0)
next
  case False
  let ?c = "neighborhood_of nlm (get_location p)"
  have "\<And>r. ?c ! (r mod length ?c) \<in> set ?c"
    using False by simp
  then have "\<And>r. ?c ! (r mod length ?c) = location p"
    using assms by (auto simp: stays_put_def get_location_def)
  then show ?thesis
    using False by (simp add: move_def next_draw_def after_draws_def)
qed

lemma movement_parallel_stays_put:
  assumes "stays_put nlm" and "set order \<subseteq> {0..<length individuals}"
  shows "movement_parallel nlm order individuals g =
         (individuals, after_draws g (length (filter
            (\<lambda>k. neighborhood_of nlm (get_location (individuals ! k)) \<noteq> []) order)))"
  using assms(2)
proof (induction order arbitrary: g)
  case Nil
  then show ?case by (simp add: after_draws_0)
next
  case (Cons k rest)
  have IH: "\<And>g. movement_parallel nlm rest individuals g =
         (individuals, after_draws g (length (filter
            (\<lambda>k. neighborhood_of nlm (get_location (individuals ! k)) \<noteq> []) rest)))"
    using Cons.prems by (intro Cons.IH) simp
  show ?case
    by (simp add: Let_def move_stays_put [OF assms(1)] IH after_draws_add after_draws_0)
qed

lemma movement_parallel_scheduled:
  assumes "stays_put nlm" and "distinct order" and "set order = {0..<length individuals}"
  shows "movement_parallel nlm order individuals g = movement_serial nlm individuals g"
proof -
  let ?P = "\<lambda>p. neighborhood_of nlm (get_location p) \<noteq> []"
  have c: "\<And>order. distinct order \<Longrightarrow> set order = {0..<length individuals} \<Longrightarrow>
         length (filter (\<lambda>k. ?P (individuals ! k)) order) = length (filter ?P individuals)"
    by (rule count_any_order)
  have "movement_parallel nlm order individuals g =
        (individuals, after_draws g (length (filter ?P individuals)))"
    using movement_parallel_stays_put [OF assms(1), of order individuals g] assms(2,3) c [of order]
    by simp
  moreover have "movement_parallel nlm [0..<length individuals] individuals g =
        (individuals, after_draws g (length (filter ?P individuals)))"
    using movement_parallel_stays_put [OF assms(1), of "[0..<length individuals]" individuals g]
      c [of "[0..<length individuals]"]
    by simp
  ultimately show ?thesis by (simp add: movement_parallel_serial)
qed

subsection \<open>The epoch loop under a schedule\<close>

lemma epoch_parallel_index_order:
  "epoch_parallel cfg nlm individual_count (individuals, g, stats) =
   epoch_parallel_scheduled cfg nlm individual_count (index_order (int (length individuals)))
     (individuals, g, stats)"
  by (simp add: epoch_parallel_def epoch_parallel_scheduled_def index_order_def Let_def)

lemma epoch_parallel_scheduled_any_order:
  assumes certain: "\<forall>r. infects cfg r"
    and mo: "visits_each_once (int (length individuals)) movement_order"
    and io: "visits_each_once (int (length individuals)) infection_order"
    and ao: "visits_each_once (int (length individuals)) advance_order"
    and mv: "stays_put nlm \<or> movement_order = [0..<length individuals]"
  shows "epoch_parallel_scheduled cfg nlm (int (length individuals))
           (movement_order, infection_order, advance_order) (individuals, g, stats) =
         epoch_parallel cfg nlm (int (length individuals)) (individuals, g, stats)"
proof -
  define mvd where "mvd = movement_serial nlm individuals g"
  have len: "length (fst mvd) = length individuals"
    by (simp add: mvd_def movement_serial_length)
  have m: "movement_parallel nlm movement_order individuals g = mvd"
  proof (cases "stays_put nlm")
    case True
    then show ?thesis
      using mo by (simp add: mvd_def movement_parallel_scheduled visits_each_once_def)
  next
    case False
    then show ?thesis using mv by (simp add: mvd_def movement_parallel_serial)
  qed
  have m0: "movement_parallel nlm [0..<length individuals] individuals g = mvd"
    by (simp add: mvd_def movement_parallel_serial)
  define inf where "inf = (outbreak (fst mvd),
     after_draws (snd mvd) (length (filter (exposed (fst mvd)) (fst mvd))))"
  have i: "infection_parallel cfg (int (length individuals)) infection_order (fst mvd) (snd mvd) = inf"
    using infection_parallel_scheduled [OF certain, of infection_order "fst mvd" "snd mvd"] io
    by (simp add: len inf_def visits_each_once_def)
  have i0: "infection_parallel cfg (int (length individuals)) [0..<length individuals]
              (fst mvd) (snd mvd) = inf"
    using infection_parallel_scheduled [OF certain, of "[0..<length individuals]" "fst mvd" "snd mvd"]
    by (simp add: len inf_def)
  have leni: "length (fst inf) = length individuals"
    by (simp add: inf_def length_outbreak len)
  have a: "advance_parallel cfg advance_order (fst inf) 0 0 =
           advance_parallel cfg [0..<length individuals] (fst inf) 0 0"
    using advance_parallel_scheduled [of advance_order "fst inf" cfg]
      advance_parallel_scheduled [of "[0..<length individuals]" "fst inf" cfg] ao
    by (simp add: leni visits_each_once_def)
  show ?thesis
    by (simp add: epoch_parallel_def epoch_parallel_scheduled_def Let_def split_beta m m0 i i0 a)
qed

lemma epochs_parallel_scheduled_serial:
  assumes certain: "\<forall>r. infects cfg r"
    and n: "n = length (fst st)"
    and inv: "\<forall>p\<in>set (fst st). hit_if_infected p"
    and orders: "\<forall>e. visits_each_once (int n) (fst (schedule e)) \<and>
                      visits_each_once (int n) (fst (snd (schedule e))) \<and>
                      visits_each_once (int n) (snd (snd (schedule e)))"
    and mv: "stays_put nlm \<or> (\<forall>e. fst (schedule e) = [0..<n])"
    and te: "unat total_epochs < 255"
    and fuel: "unat total_epochs + 1 - unat current_epoch < fuel"
  shows "epochs_parallel_scheduled fuel cfg nlm (int n) schedule total_epochs current_epoch st =
         Some (epochs_serial cfg nlm (uint total_epochs) (uint current_epoch) st)"
  using n inv orders mv fuel
proof (induction fuel arbitrary: schedule current_epoch st)
  case 0
  then show ?case by simp
next
  case (Suc fuel)
  obtain individuals g stats where st: "st = (individuals, g, stats)" by (cases st) auto
  obtain movement_order infection_order advance_order
    where s0: "schedule 0 = (movement_order, infection_order, advance_order)"
    by (cases "schedule 0") auto
  have len: "n = length individuals" using Suc.prems(1) by (simp add: st)
  show ?case
  proof (cases "uint current_epoch < uint total_epochs + 1")
    case True
    then have lt: "unat current_epoch < unat total_epochs + 1"
      unfolding uint_nat by linarith
    then have nowrap: "unat (current_epoch + 1) = unat current_epoch + 1"
      using te by (simp add: unat_word_ariths)
    then have unowrap: "uint (current_epoch + 1) = uint current_epoch + 1"
      unfolding uint_nat by simp
    have o0: "visits_each_once (int (length individuals)) movement_order"
      "visits_each_once (int (length individuals)) infection_order"
      "visits_each_once (int (length individuals)) advance_order"
      using Suc.prems(3) [rule_format, of 0] by (simp_all add: s0 len)
    have m0: "stays_put nlm \<or> movement_order = [0..<length individuals]"
      using Suc.prems(4) s0 len by (metis fst_conv)
    have wf: "\<forall>p\<in>set individuals. hit_if_infected p"
      using Suc.prems(2) by (simp add: st)
    have "epoch_parallel_scheduled cfg nlm (int (length individuals))
            (movement_order, infection_order, advance_order) (individuals, g, stats) =
          epoch_parallel cfg nlm (int (length individuals)) (individuals, g, stats)"
      using certain o0 m0 by (rule epoch_parallel_scheduled_any_order)
    also have "\<dots> = epoch_serial cfg nlm (individuals, g, stats)"
      using certain wf by (rule epoch_parallel_eq_serial)
    finally have step: "epoch_parallel_scheduled cfg nlm (int n) (schedule 0) st =
                        epoch_serial cfg nlm st"
      by (simp add: st s0 len)
    have keep: "(\<forall>p\<in>set (fst (epoch_serial cfg nlm st)). hit_if_infected p) \<and>
         length (fst (epoch_serial cfg nlm st)) = length (fst st)"
      using Suc.prems(2) by (rule epoch_serial_keeps)
    have IH: "epochs_parallel_scheduled fuel cfg nlm (int n) (\<lambda>e. schedule (Suc e)) total_epochs
                (current_epoch + 1) (epoch_serial cfg nlm st) =
              Some (epochs_serial cfg nlm (uint total_epochs) (uint (current_epoch + 1))
                (epoch_serial cfg nlm st))"
    proof (rule Suc.IH)
      show "n = length (fst (epoch_serial cfg nlm st))"
        using keep Suc.prems(1) by simp
      show "\<forall>p\<in>set (fst (epoch_serial cfg nlm st)). hit_if_infected p"
        using keep by simp
      show "\<forall>e. visits_each_once (int n) (fst (schedule (Suc e))) \<and>
                visits_each_once (int n) (fst (snd (schedule (Suc e)))) \<and>
                visits_each_once (int n) (snd (snd (schedule (Suc e))))"
        using Suc.prems(3) by blast
      show "stays_put nlm \<or> (\<forall>e. fst (schedule (Suc e)) = [0..<n])"
        using Suc.prems(4) by blast
      show "unat total_epochs + 1 - unat (current_epoch + 1) < fuel"
        using Suc.prems(5) lt nowrap by simp
    qed
    have ser: "epochs_serial cfg nlm (uint total_epochs) (uint current_epoch) st =
               epochs_serial cfg nlm (uint total_epochs) (uint current_epoch + 1)
                 (epoch_serial cfg nlm st)"
      using True by (subst epochs_serial.simps) simp
    show ?thesis
      using True by (simp add: step IH ser unowrap del: epochs_serial.simps)
  next
    case False
    then have "epochs_serial cfg nlm (uint total_epochs) (uint current_epoch) st = st"
      by (subst epochs_serial.simps) simp
    then show ?thesis using False by (simp del: epochs_serial.simps)
  qed
qed

lemma epoch_parallel_length:
  "length (fst (epoch_parallel cfg nlm individual_count st)) = length (fst st)"
proof -
  obtain individuals g stats where st: "st = (individuals, g, stats)" by (cases st) auto
  have "list_all2 evolves individuals
          (fst (epoch_parallel cfg nlm individual_count (individuals, g, stats)))"
    by (rule epoch_parallel_evolves)
  from list_all2_lengthD [OF this] show ?thesis by (simp add: st)
qed

lemma epochs_parallel_index_order:
  "epochs_parallel fuel cfg nlm individual_count total_epochs current_epoch st =
   epochs_parallel_scheduled fuel cfg nlm individual_count
     (\<lambda>e. index_order (int (length (fst st)))) total_epochs current_epoch st"
proof (induction fuel arbitrary: current_epoch st)
  case 0
  show ?case by simp
next
  case (Suc fuel)
  obtain individuals g stats where st: "st = (individuals, g, stats)" by (cases st) auto
  have step: "epoch_parallel_scheduled cfg nlm individual_count
                (index_order (int (length (fst st)))) st =
              epoch_parallel cfg nlm individual_count st"
    by (simp add: st epoch_parallel_index_order)
  have len: "length (fst (epoch_parallel cfg nlm individual_count st)) = length (fst st)"
    by (rule epoch_parallel_length)
  show ?case
    using Suc.IH [of "current_epoch + 1" "epoch_parallel cfg nlm individual_count st"]
    by (simp add: step len)
qed

lemma simulate_parallel_index_order:
  "simulate_parallel fuel cfg nlm individual_count total_epochs (individuals, g, stats) =
   simulate_parallel_scheduled fuel cfg nlm individual_count
     (\<lambda>e. index_order (int (length individuals))) total_epochs (individuals, g, stats)"
  using epochs_parallel_index_order [of fuel cfg nlm individual_count total_epochs 0
      "(individuals, g, stats)"]
  by (simp add: simulate_parallel_def simulate_parallel_scheduled_def)

section \<open>Claims about the two execution modes\<close>

text \<open>
  Claim C2, as the code has it. In the infection phase, a read of another individual's
  location observes the location it had when the phase started, since the phase changes
  no location, in \<^verbatim>\<open>simulate_parallel\<close> and in \<^verbatim>\<open>simulate_serial\<close>. The reads of the
  infection state observe the shared array as it is, so an individual infected earlier in
  the phase counts as infected in a later scan. When every attempt succeeds (an infection
  probability of 1.0), the population after the phase is the outbreak of the population
  before it, in both loops: the Susceptible individuals that share their location with an
  individual infected at the start of the phase become infected, and no others.
\<close>

theorem infection_reads:
  assumes "0 < chunk individuals" and count: "individual_count = int (length individuals)"
  shows "list_all2 (\<lambda>before after. get_location after = get_location before) individuals
           (fst (infection_parallel cfg individual_count [0..<length individuals] individuals g)) \<and>
         list_all2 (\<lambda>before after. get_location after = get_location before) individuals
           (fst (infection_serial cfg [0..<length individuals] individuals g)) \<and>
         ((\<forall>r. infects cfg r) \<longrightarrow>
            fst (infection_parallel cfg individual_count [0..<length individuals] individuals g) =
              outbreak individuals \<and>
            fst (infection_serial cfg [0..<length individuals] individuals g) =
              outbreak individuals)"
proof (intro conjI impI)
  show "list_all2 (\<lambda>before after. get_location after = get_location before) individuals
           (fst (infection_parallel cfg individual_count [0..<length individuals] individuals g))"
    by (rule infection_parallel_pointwise) (simp_all add: get_location_infect)
  show "list_all2 (\<lambda>before after. get_location after = get_location before) individuals
           (fst (infection_serial cfg [0..<length individuals] individuals g))"
    by (rule infection_serial_pointwise) (simp_all add: get_location_infect)
next
  assume a: "\<forall>r. infects cfg r"
  show "fst (infection_parallel cfg individual_count [0..<length individuals] individuals g) =
              outbreak individuals"
    unfolding count by (simp add: infection_parallel_certain [OF a])
  show "fst (infection_serial cfg [0..<length individuals] individuals g) =
              outbreak individuals"
    by (simp add: infection_serial_certain [OF a])
qed

theorem infection_reads_witness:
  "0 < chunk quartet \<and> (4 :: int) = int (length quartet) \<and>
   list_all2 (\<lambda>before after. get_location after = get_location before) quartet
     (fst (infection_parallel cfg2 4 [0..<length quartet] quartet (Rng (\<lambda>k. k) 0))) \<and>
   list_all2 (\<lambda>before after. get_location after = get_location before) quartet
     (fst (infection_serial cfg2 [0..<length quartet] quartet (Rng (\<lambda>k. k) 0))) \<and>
   fst (infection_parallel (cfg2\<lparr>infects := \<lambda>r. True\<rparr>) 4 [0..<length quartet] quartet
          (Rng (\<lambda>k. k) 0)) = outbreak quartet \<and>
   fst (infection_serial (cfg2\<lparr>infects := \<lambda>r. True\<rparr>) [0..<length quartet] quartet
          (Rng (\<lambda>k. k) 0)) = outbreak quartet"
proof -
  have h1: "0 < chunk quartet"
    by (simp add: chunk_def DEFAULT_NUMBER_OF_THREADS_def quartet_def)
  have h2: "(4 :: int) = int (length quartet)" by (simp add: quartet_def)
  have h3: "\<forall>r. infects (cfg2\<lparr>infects := \<lambda>r. True\<rparr>) r" by simp
  show ?thesis
    using h1 h2 h3
      infection_reads [OF h1 h2, where cfg = cfg2 and g = "Rng (\<lambda>k. k) 0"]
      infection_reads [OF h1 h2, where cfg = "cfg2\<lparr>infects := \<lambda>r. True\<rparr>"
        and g = "Rng (\<lambda>k. k) 0"]
    by blast
qed

text \<open>
  Claim C2 as stated: every read observes the population as it was when the phase
  started, so that the phase computes what \<open>infection_parallel_snapshot\<close> computes. With
  one infected and three susceptible individuals at one location, and a second draw that
  does not infect, the third individual fails against the first and is then infected by
  the second, which became infected in this very phase; under the snapshot rule it stays
  Susceptible.
\<close>

theorem infection_reads_counterexample:
  "map infectionState (fst (infection_parallel cfg2 4 [0..<length quartet] quartet
           (Rng (\<lambda>k. if k = 1 then 0 else 1) 0))) =
     [Infected, Infected, Infected, Infected] \<and>
   map infectionState (fst (infection_parallel_snapshot cfg2 4 [0..<length quartet] quartet quartet
           (Rng (\<lambda>k. if k = 1 then 0 else 1) 0))) =
     [Infected, Infected, Susceptible, Infected] \<and>
   fst (infection_parallel cfg2 4 [0..<length quartet] quartet
           (Rng (\<lambda>k. if k = 1 then 0 else 1) 0)) \<noteq>
   fst (infection_parallel_snapshot cfg2 4 [0..<length quartet] quartet quartet
           (Rng (\<lambda>k. if k = 1 then 0 else 1) 0))"
  by code_simp

text \<open>
  Claim C1, as the code has it. \<^verbatim>\<open>simulate_serial\<close> lets each infected individual try every
  other individual at its location, \<^verbatim>\<open>simulate_parallel\<close> lets each individual that is not
  infected try the infected ones at its location until one attempt succeeds: the two
  take different numbers of draws and may infect different individuals. And with more
  than one worker the movement loop of \<^verbatim>\<open>simulate_parallel\<close> hands the draws of the shared
  generator to the individuals in the order in which the team visits them.

  Let every attempt succeed (an infection probability of 1.0), let the population
  satisfy the invariant of the class, and let \<open>individual_count\<close> and the static
  \<open>max_index\<close> of line 13 both be its size. Take any number of workers and, for every
  epoch, any orders in which a team of that many workers can run the three loops under
  \<^verbatim>\<open>schedule(static, chunk)\<close>. If no individual can move, or the movement loops run in index
  order, a run of \<^verbatim>\<open>simulate_parallel\<close> that returns ends in the state in which
  \<^verbatim>\<open>simulate_serial\<close> ends for the same configuration and seed: the same population,
  generator and statistics, hence the same final \<open>hit_count\<close> and \<open>infected_count\<close>.
  The run of \<open>simulate_parallel\<close> in index order is one of these runs
  (\<open>simulate_parallel_index_order\<close>, \<open>parallel_order_index\<close>).
\<close>

theorem serial_parallel_agree:
  assumes certain: "\<forall>r. infects cfg r"
    and inv: "\<forall>p\<in>set individuals. is_infected p \<longrightarrow> is_hit p"
    and "0 < chunk individuals"
    and count: "individual_count = int (length individuals)"
    and static: "max_index = int (length individuals)"
    and team: "0 < workers"
    and orders: "\<forall>e. scheduled (chunk individuals) max_index workers (schedule e)"
    and movement: "stays_put nlm \<or> (\<forall>e. fst (schedule e) = [0..<nat max_index])"
    and returns: "total_epochs \<noteq> 255" "unat total_epochs + 1 < fuel"
  shows "simulate_parallel_scheduled fuel cfg nlm individual_count schedule total_epochs
           (individuals, g, []) =
         Some (simulate_serial cfg nlm (uint total_epochs) individuals g)"
proof -
  have wf: "\<forall>p\<in>set (fst (individuals, g, [] :: (int \<times> int) list)). hit_if_infected p"
    using inv by (simp add: hit_if_infected_def)
  have len: "length individuals = length (fst (individuals, g, [] :: (int \<times> int) list))"
    by simp
  have each: "\<forall>e. visits_each_once (int (length individuals)) (fst (schedule e)) \<and>
                  visits_each_once (int (length individuals)) (fst (snd (schedule e))) \<and>
                  visits_each_once (int (length individuals)) (snd (snd (schedule e)))"
  proof
    fix e
    obtain movement_order infection_order advance_order
      where se: "schedule e = (movement_order, infection_order, advance_order)"
      by (cases "schedule e") auto
    have "scheduled (chunk individuals) max_index workers
            (movement_order, infection_order, advance_order)"
      using orders [rule_format, of e] by (simp add: se)
    then have "parallel_order (chunk individuals) max_index workers movement_order"
      and "parallel_order (chunk individuals) max_index workers infection_order"
      and "parallel_order (chunk individuals) max_index workers advance_order"
      by (simp_all add: scheduled_def)
    then have "visits_each_once max_index movement_order"
      and "visits_each_once max_index infection_order"
      and "visits_each_once max_index advance_order"
      using team by (simp_all add: parallel_order_visits_each_once)
    then show "visits_each_once (int (length individuals)) (fst (schedule e)) \<and>
               visits_each_once (int (length individuals)) (fst (snd (schedule e))) \<and>
               visits_each_once (int (length individuals)) (snd (snd (schedule e)))"
      by (simp add: se static)
  qed
  have mv: "stays_put nlm \<or> (\<forall>e. fst (schedule e) = [0..<length individuals])"
    using movement by (simp add: static)
  have "unat total_epochs \<noteq> unat (255 :: 8 word)"
    using returns(1) by (simp add: word_unat_eq_iff)
  moreover have "unat total_epochs < 2 ^ LENGTH(8)" by (rule unsigned_less)
  ultimately have te: "unat total_epochs < 255" by simp
  have fuel: "unat total_epochs + 1 - unat (0 :: 8 word) < fuel"
    using returns(2) by simp
  have "epochs_parallel_scheduled fuel cfg nlm (int (length individuals)) schedule total_epochs 0
          (individuals, g, []) =
        Some (epochs_serial cfg nlm (uint total_epochs) (uint (0 :: 8 word)) (individuals, g, []))"
    using certain len wf each mv te fuel by (rule epochs_parallel_scheduled_serial)
  then show ?thesis
    by (simp add: simulate_parallel_scheduled_def simulate_serial_def count
        del: epochs_serial.simps)
qed

theorem serial_parallel_agree_witness:
  "(\<forall>r. infects (cfg2\<lparr>infects := \<lambda>r. True\<rparr>) r) \<and>
   list_all (\<lambda>p. is_infected p \<longrightarrow> is_hit p) quartet \<and> 0 < chunk quartet \<and>
   (4 :: int) = int (length quartet) \<and> (0 :: nat) < 4 \<and>
   (\<forall>e. scheduled (chunk quartet) 4 4 ([0, 1, 2, 3], [3, 1, 0, 2], [2, 0, 3, 1])) \<and>
   (\<forall>e :: nat. fst ([0, 1, 2, 3], [3, 1, 0, 2], [2, 0, 3, 1 :: nat]) = [0..<nat 4]) \<and>
   (2 :: 8 word) \<noteq> 255 \<and> unat (2 :: 8 word) + 1 < 4 \<and>
   simulate_parallel_scheduled 4 (cfg2\<lparr>infects := \<lambda>r. True\<rparr>) two_locations_map 4
       (\<lambda>e. ([0, 1, 2, 3], [3, 1, 0, 2], [2, 0, 3, 1])) 2 (quartet, Rng (\<lambda>k. k) 0, []) =
     Some (simulate_serial (cfg2\<lparr>infects := \<lambda>r. True\<rparr>) two_locations_map (uint (2 :: 8 word))
             quartet (Rng (\<lambda>k. k) 0)) \<and>
   stays_put one_location \<and>
   (\<forall>e. scheduled (chunk quartet) 4 4 ([1, 0, 3, 2], [3, 1, 0, 2], [2, 0, 3, 1])) \<and>
   simulate_parallel_scheduled 4 (cfg2\<lparr>infects := \<lambda>r. True\<rparr>) one_location 4
       (\<lambda>e. ([1, 0, 3, 2], [3, 1, 0, 2], [2, 0, 3, 1])) 2 (quartet, Rng (\<lambda>k. k) 0, []) =
     Some (simulate_serial (cfg2\<lparr>infects := \<lambda>r. True\<rparr>) one_location (uint (2 :: 8 word))
             quartet (Rng (\<lambda>k. k) 0))"
proof -
  have h1: "\<forall>r. infects (cfg2\<lparr>infects := \<lambda>r. True\<rparr>) r" by simp
  have h2: "\<forall>p\<in>set quartet. is_infected p \<longrightarrow> is_hit p"
    by (simp add: quartet_def seeded_def is_infected_def is_hit_def)
  have h2': "list_all (\<lambda>p. is_infected p \<longrightarrow> is_hit p) quartet"
    using h2 by (simp add: list_all_iff)
  have h3: "0 < chunk quartet"
    by (simp add: chunk_def DEFAULT_NUMBER_OF_THREADS_def quartet_def)
  have h4: "(4 :: int) = int (length quartet)" by (simp add: quartet_def)
  have h5: "(0 :: nat) < 4" by simp
  have s1: "scheduled (chunk quartet) 4 4 ([0, 1, 2, 3], [3, 1, 0, 2], [2, 0, 3, 1])"
    by code_simp
  have s2: "scheduled (chunk quartet) 4 4 ([1, 0, 3, 2], [3, 1, 0, 2], [2, 0, 3, 1])"
    by code_simp
  have h6: "\<forall>e :: nat. scheduled (chunk quartet) 4 4
              ((\<lambda>e. ([0, 1, 2, 3], [3, 1, 0, 2], [2, 0, 3, 1])) e)"
    using s1 by simp
  have h6': "\<forall>e :: nat. scheduled (chunk quartet) 4 4
              ((\<lambda>e. ([1, 0, 3, 2], [3, 1, 0, 2], [2, 0, 3, 1])) e)"
    using s2 by simp
  have i1: "fst ([0, 1, 2, 3], [3, 1, 0, 2], [2, 0, 3, 1 :: nat]) = [0..<nat 4]"
    by code_simp
  have h7: "stays_put two_locations_map \<or>
            (\<forall>e :: nat. fst ((\<lambda>e. ([0, 1, 2, 3], [3, 1, 0, 2], [2, 0, 3, 1 :: nat])) e) = [0..<nat 4])"
    using i1 by simp
  have put: "stays_put one_location"
    by (simp add: stays_put_def neighborhood_of_def one_location_def)
  have h7': "stays_put one_location \<or>
            (\<forall>e :: nat. fst ((\<lambda>e. ([1, 0, 3, 2], [3, 1, 0, 2], [2, 0, 3, 1 :: nat])) e) = [0..<nat 4])"
    using put by simp
  have h8: "(2 :: 8 word) \<noteq> 255" by simp
  have h9: "unat (2 :: 8 word) + 1 < 4" by simp
  show ?thesis
    using h1 h2' h3 h4 h5 s1 s2 i1 put h8 h9
      serial_parallel_agree [OF h1 h2 h3 h4 h4 h5 h6 h7 h8 h9, where g = "Rng (\<lambda>k. k) 0"]
      serial_parallel_agree [OF h1 h2 h3 h4 h4 h5 h6' h7' h8 h9, where g = "Rng (\<lambda>k. k) 0"]
    by blast
qed

text \<open>
  Claim C1 as stated, for every configuration and seed and every number of workers. The
  population is one infected and three susceptible individuals, run for one epoch by a
  team of four workers. First, at one location, with the loops in index order and a
  fifth draw that does not infect (the first four move the individuals): the serial loop
  infects the second individual through the third, which it has just infected, and ends
  with four infected; the parallel loop has passed the second individual by then and
  ends with three. Second, on two locations joined by an edge, with every attempt
  successful and a first draw that keeps its individual at location 0 where the later
  ones lead to location 1: the serial movement gives that draw to the infected
  individual, which stays alone and infects nobody; a team whose second worker moves
  first gives it to a susceptible individual, the infected one follows the others to
  location 1, and two of them are infected.
\<close>

theorem serial_parallel_agree_counterexample:
  "scheduled (chunk quartet) 4 4 (index_order 4) \<and>
   stats_of (simulate_serial cfg2 one_location 0 quartet (Rng (\<lambda>k. if k = 4 then 0 else 1) 0)) =
     [(4, 4)] \<and>
   map_option stats_of (simulate_parallel_scheduled 2 cfg2 one_location 4 (\<lambda>e. index_order 4) 0
      (quartet, Rng (\<lambda>k. if k = 4 then 0 else 1) 0, [])) = Some [(3, 3)] \<and>
   scheduled (chunk quartet) 4 4 ([1, 0, 2, 3], [0, 1, 2, 3], [0, 1, 2, 3]) \<and>
   stats_of (simulate_serial (cfg2\<lparr>infects := \<lambda>r. True\<rparr>) two_locations_map 0 quartet
      (Rng (\<lambda>k. if k = 0 then 0 else 1) 0)) = [(1, 1)] \<and>
   map_option stats_of (simulate_parallel_scheduled 2 (cfg2\<lparr>infects := \<lambda>r. True\<rparr>)
      two_locations_map 4 (\<lambda>e. ([1, 0, 2, 3], [0, 1, 2, 3], [0, 1, 2, 3])) 0
      (quartet, Rng (\<lambda>k. if k = 0 then 0 else 1) 0, [])) = Some [(3, 3)]"
  by code_simp

section \<open>Claims about the epoch loop\<close>

text \<open>
  Claim C10. \<^verbatim>\<open>simulate_parallel\<close> only appends to the caller's statistics vector: a call
  on a vector with prior contents returns what the call on the empty vector returns, with
  the prior contents in front; the entries it adds are \<open>total_epochs + 1\<close>; and the call
  returns for every \<open>total_epochs\<close> other than 255. Two calls on the same vector therefore
  leave the entries of both runs in it. The chunk is positive and the scan stays in range.
\<close>

theorem simulate_parallel_appends:
  assumes "0 < chunk individuals" and "individual_count \<le> int (length individuals)"
  shows "simulate_parallel fuel cfg nlm individual_count total_epochs (individuals, g, prior) =
           map_option (prepend prior)
             (simulate_parallel fuel cfg nlm individual_count total_epochs (individuals, g, [])) \<and>
         (\<forall>st. simulate_parallel fuel cfg nlm individual_count total_epochs (individuals, g, []) =
                 Some st \<longrightarrow>
               length (stats_of st) = unat total_epochs + 1) \<and>
         (total_epochs \<noteq> 255 \<and> unat total_epochs + 1 < fuel \<longrightarrow>
            simulate_parallel fuel cfg nlm individual_count total_epochs (individuals, g, []) \<noteq> None)"
proof (intro conjI allI impI)
  show "simulate_parallel fuel cfg nlm individual_count total_epochs (individuals, g, prior) =
     map_option (prepend prior)
       (simulate_parallel fuel cfg nlm individual_count total_epochs (individuals, g, []))"
    using epochs_parallel_prepend [of fuel cfg nlm individual_count total_epochs 0 prior
        "(individuals, g, [])"]
    by (simp add: simulate_parallel_def prepend_Nil)
next
  fix st
  assume "simulate_parallel fuel cfg nlm individual_count total_epochs (individuals, g, []) = Some st"
  then show "length (stats_of st) = unat total_epochs + 1"
    using epochs_parallel_length [of fuel cfg nlm individual_count total_epochs 0
        "(individuals, g, [])" st]
    by (simp add: simulate_parallel_def stats_of_def)
next
  assume "total_epochs \<noteq> 255 \<and> unat total_epochs + 1 < fuel"
  then show "simulate_parallel fuel cfg nlm individual_count total_epochs (individuals, g, []) \<noteq> None"
    by (simp add: simulate_parallel_funpow)
qed

theorem simulate_parallel_appends_witness:
  "0 < chunk quartet \<and> 4 \<le> int (length quartet) \<and>
   (2 :: 8 word) \<noteq> 255 \<and> unat (2 :: 8 word) + 1 < 4 \<and>
   simulate_parallel 4 cfg2 one_location 4 2 (quartet, Rng (\<lambda>k. k) 0, []) \<noteq> None \<and>
   (\<exists>st. simulate_parallel 4 cfg2 one_location 4 2 (quartet, Rng (\<lambda>k. k) 0, []) = Some st \<and>
         length (stats_of st) = unat (2 :: 8 word) + 1) \<and>
   simulate_parallel 4 cfg2 one_location 4 2 (quartet, Rng (\<lambda>k. k) 0, [(9, 9)]) =
     map_option (prepend [(9, 9)])
       (simulate_parallel 4 cfg2 one_location 4 2 (quartet, Rng (\<lambda>k. k) 0, []))"
proof -
  have h1: "0 < chunk quartet"
    by (simp add: chunk_def DEFAULT_NUMBER_OF_THREADS_def quartet_def)
  have h2: "4 \<le> int (length quartet)" by (simp add: quartet_def)
  have h: "(2 :: 8 word) \<noteq> 255 \<and> unat (2 :: 8 word) + 1 < 4" by simp
  show ?thesis
    using h h1 h2
      simulate_parallel_appends [OF h1 h2, where fuel = 4 and cfg = cfg2 and nlm = one_location
        and total_epochs = 2 and g = "Rng (\<lambda>k. k) 0"]
    by blast
qed

text \<open>
  Claim C6. A run executes the epochs 0 to \<open>total_epochs\<close> and records \<open>total_epochs + 1\<close>
  entries. \<^verbatim>\<open>simulate_serial\<close>, whose counter is an \<^verbatim>\<open>int\<close>, does so; in
  \<^verbatim>\<open>simulate_parallel\<close> the counter is a \<^verbatim>\<open>std::uint8_t\<close>, and for \<open>total_epochs = 255\<close> it
  stays below \<open>total_epochs + 1 = 256\<close>: no amount of fuel lets the loop return, while the
  serial loop records its 256 entries.
\<close>

theorem simulate_parallel_255_never_returns:
  "simulate_parallel fuel cfg nlm individual_count 255 st = None \<and>
   length (stats_of (simulate_serial cfg nlm 255 individuals g)) = 256"
proof
  show "simulate_parallel fuel cfg nlm individual_count 255 st = None"
    by (simp add: simulate_parallel_def epochs_parallel_never_returns)
next
  have "length (stats_of ((epoch_serial cfg nlm ^^ 256) (individuals, g, []))) =
        length (stats_of (individuals, g, [])) + 256"
    using length_stats_epoch_serial by (rule funpow_length_stats)
  then show "length (stats_of (simulate_serial cfg nlm 255 individuals g)) = 256"
    by (simp add: simulate_serial_funpow stats_of_def)
qed

text \<open>For the other values the two loops agree with the claim.\<close>

lemma simulate_serial_entries:
  "0 \<le> total_epochs \<Longrightarrow>
   length (stats_of (simulate_serial cfg nlm total_epochs individuals g)) = nat total_epochs + 1"
proof -
  assume "0 \<le> total_epochs"
  then have n: "nat (total_epochs + 1) = nat total_epochs + 1" by simp
  have "length (stats_of ((epoch_serial cfg nlm ^^ nat (total_epochs + 1)) (individuals, g, []))) =
        length (stats_of (individuals, g, [])) + nat (total_epochs + 1)"
    using length_stats_epoch_serial by (rule funpow_length_stats)
  then show ?thesis by (simp add: simulate_serial_funpow stats_of_def n)
qed

lemma simulate_parallel_entries:
  assumes "total_epochs \<noteq> 255" and "unat total_epochs + 1 < fuel"
  shows "\<exists>st'. simulate_parallel fuel cfg nlm n total_epochs (individuals, g, []) = Some st' \<and>
           length (stats_of st') = unat total_epochs + 1"
proof -
  have "length (stats_of ((epoch_parallel cfg nlm n ^^ (unat total_epochs + 1)) (individuals, g, []))) =
        length (stats_of (individuals, g, [])) + (unat total_epochs + 1)"
    using length_stats_epoch_parallel by (rule funpow_length_stats)
  then show ?thesis
    using assms by (simp add: simulate_parallel_funpow stats_of_def)
qed

end
